theory Spec2Isabelle
  imports Main "HOL-Library.AList" "HOL-Library.Char_ord" "HOL-Library.List_Lexorder"
begin

section \<open>JSON values\<close>

text \<open>
  The document is the editor's JSON tree, typed \<^verbatim>\<open>any\<close> throughout the source. An object
  is an association list in key order; numbers are integers (the only property of a number
  the code looks at is whether it is zero).
\<close>

datatype json =
    JNull
  | JBool bool
  | JNum int
  | JStr string
  | JArr "json list"
  | JObj "(string \<times> json) list"

text \<open>JavaScript truthiness, as used by \<^verbatim>\<open>!x\<close>, \<^verbatim>\<open>x || y\<close> and \<^verbatim>\<open>if (x)\<close>.\<close>

fun truthy :: "json \<Rightarrow> bool" where
  "truthy JNull = False"
| "truthy (JBool b) = b"
| "truthy (JNum n) = (n \<noteq> 0)"
| "truthy (JStr s) = (s \<noteq> [])"
| "truthy (JArr xs) = True"
| "truthy (JObj kvs) = True"

text \<open>
  Property access \<^verbatim>\<open>v.k\<close> on a value that is not null: \<open>None\<close> is \<^verbatim>\<open>undefined\<close>.
  Only the keys \<^verbatim>\<open>type\<close>, \<^verbatim>\<open>attrs\<close>, \<^verbatim>\<open>content\<close>, \<^verbatim>\<open>imageId\<close> and \<^verbatim>\<open>src\<close> are ever read, and
  no string, number, boolean or array has one of them.
\<close>

fun get_prop :: "json \<Rightarrow> string \<Rightarrow> json option" where
  "get_prop (JObj kvs) k = map_of kvs k"
| "get_prop v k = None"

definition truthy_opt :: "json option \<Rightarrow> bool" where
  "truthy_opt v = (case v of None \<Rightarrow> False | Some j \<Rightarrow> truthy j)"

text \<open>Optional chaining \<^verbatim>\<open>v?.k\<close>: \<^verbatim>\<open>undefined\<close> when \<open>v\<close> is null or undefined.\<close>

definition opt_chain :: "json option \<Rightarrow> string \<Rightarrow> json option" where
  "opt_chain v k = (case v of None \<Rightarrow> None | Some JNull \<Rightarrow> None | Some j \<Rightarrow> get_prop j k)"

text \<open>
  The object spread \<^verbatim>\<open>{...o, k: v}\<close>: an existing key keeps its place and takes the new
  value, a new key goes last. Spreading a value that is not an object copies nothing.
\<close>

fun spread_set :: "json \<Rightarrow> string \<Rightarrow> json \<Rightarrow> json" where
  "spread_set (JObj kvs) k v = JObj (AList.update k v kvs)"
| "spread_set j k v = JObj [(k, v)]"

section \<open>The object store (lib/storage.ts)\<close>

datatype blob = Blob (mime: string) (bytes: "nat list")

datatype error = Error string

text \<open>
  The values of the two stores. The fields \<open>doc_id\<close> and \<open>doc_content\<close> are \<^verbatim>\<open>id\<close> and
  \<^verbatim>\<open>content\<close> of a document record, \<open>img_id\<close> and \<open>img_blob\<close> are \<^verbatim>\<open>id\<close> and \<^verbatim>\<open>blob\<close> of an
  image record.
\<close>

record document_record =
  doc_id :: string
  doc_content :: json
  updatedAt :: nat

record image_record =
  img_id :: string
  img_blob :: blob
  createdAt :: nat

text \<open>
  The browser as the storage layer sees it: the two object stores of the database
  \<^verbatim>\<open>notes-app-db\<close>, the module variable \<^verbatim>\<open>dbInstance\<close> (here: whether it is set), the
  clock, the results \<^verbatim>\<open>Math.random().toString(36)\<close> will give, the registry of object URLs
  and the console. Every database request (opening the database included) is numbered;
  \<open>faults s n\<close> is the error with which request \<open>n\<close> rejects, if it does. The calls of
  \<^verbatim>\<open>Date.now()\<close> are numbered too: \<open>clock s n\<close> is what call \<open>n\<close> returns, so that two calls in
  one operation can give two times.
\<close>

record browser =
  documents :: "(string \<times> document_record) list"
  images :: "(string \<times> image_record) list"
  dbInstance :: bool
  requests :: nat
  faults :: "nat \<Rightarrow> error option"
  clock :: "nat \<Rightarrow> nat"
  clock_reads :: nat
  randoms :: "nat \<Rightarrow> string"
  random_calls :: nat
  objectURLs :: "(string \<times> blob) list"
  console :: "(string \<times> error) list"

definition DOCUMENT_ID :: string where
  "DOCUMENT_ID = ''main-document''"

text \<open>One database request: it rejects with the error the browser has in store for it.\<close>

definition request :: "browser \<Rightarrow> error option \<times> browser" where
  "request s = (faults s (requests s), s\<lparr>requests := Suc (requests s)\<rparr>)"

definition console_error :: "string \<Rightarrow> error \<Rightarrow> browser \<Rightarrow> browser" where
  "console_error msg e s = s\<lparr>console := console s @ [(msg, e)]\<rparr>"

text \<open>
  \<^verbatim>\<open>getDB\<close>: the cached instance if there is one, else \<^verbatim>\<open>openDB\<close>, whose upgrade callback
  creates the two stores (they are empty lists here until something is put).
\<close>

definition getDB :: "browser \<Rightarrow> (error + unit) \<times> browser" where
  "getDB s =
     (if dbInstance s then (Inr (), s)
      else (case request s of
              (Some e, s1) \<Rightarrow> (Inl e, s1)
            | (None, s1) \<Rightarrow> (Inr (), s1\<lparr>dbInstance := True\<rparr>)))"

text \<open>
  Keys the database accepts: numbers, strings and arrays of keys. \<^verbatim>\<open>db.get\<close> with any
  other value rejects with a DataError.
\<close>

fun valid_key :: "json \<Rightarrow> bool" where
  "valid_key (JNum n) = True"
| "valid_key (JStr s) = True"
| "valid_key (JArr xs) = (\<forall>x \<in> set xs. valid_key x)"
| "valid_key j = False"

definition db_put_document :: "document_record \<Rightarrow> browser \<Rightarrow> (error + unit) \<times> browser" where
  "db_put_document r s =
     (case request s of
        (Some e, s1) \<Rightarrow> (Inl e, s1)
      | (None, s1) \<Rightarrow> (Inr (), s1\<lparr>documents := AList.update (doc_id r) r (documents s1)\<rparr>))"

definition db_get_document :: "string \<Rightarrow> browser \<Rightarrow> (error + document_record option) \<times> browser" where
  "db_get_document k s =
     (case request s of
        (Some e, s1) \<Rightarrow> (Inl e, s1)
      | (None, s1) \<Rightarrow> (Inr (map_of (documents s1) k), s1))"

definition db_put_image :: "image_record \<Rightarrow> browser \<Rightarrow> (error + unit) \<times> browser" where
  "db_put_image r s =
     (case request s of
        (Some e, s1) \<Rightarrow> (Inl e, s1)
      | (None, s1) \<Rightarrow> (Inr (), s1\<lparr>images := AList.update (img_id r) r (images s1)\<rparr>))"

text \<open>Every key in the images store is a string, so another valid key finds nothing.\<close>

definition db_get_image :: "json \<Rightarrow> browser \<Rightarrow> (error + image_record option) \<times> browser" where
  "db_get_image k s =
     (if \<not> valid_key k then (Inl (Error ''DataError''), s)
      else (case request s of
              (Some e, s1) \<Rightarrow> (Inl e, s1)
            | (None, s1) \<Rightarrow>
                (Inr (case k of JStr i \<Rightarrow> map_of (images s1) i | _ \<Rightarrow> None), s1)))"

definition db_getAllKeys_images :: "browser \<Rightarrow> (error + string list) \<times> browser" where
  "db_getAllKeys_images s =
     (case request s of
        (Some e, s1) \<Rightarrow> (Inl e, s1)
      | (None, s1) \<Rightarrow> (Inr (sort (map fst (images s1))), s1))"

definition db_delete_image :: "string \<Rightarrow> browser \<Rightarrow> (error + unit) \<times> browser" where
  "db_delete_image k s =
     (case request s of
        (Some e, s1) \<Rightarrow> (Inl e, s1)
      | (None, s1) \<Rightarrow> (Inr (), s1\<lparr>images := AList.delete k (images s1)\<rparr>))"

text \<open>\<^verbatim>\<open>Date.now()\<close>\<close>

definition Date_now :: "browser \<Rightarrow> nat \<times> browser" where
  "Date_now s = (clock s (clock_reads s), s\<lparr>clock_reads := Suc (clock_reads s)\<rparr>)"

text \<open>\<^verbatim>\<open>saveDocument\<close>: the catch block logs and rethrows.\<close>

definition saveDocument :: "json \<Rightarrow> browser \<Rightarrow> (error + unit) \<times> browser" where
  "saveDocument docJson s =
     (case getDB s of
        (Inl e, s1) \<Rightarrow> (Inl e, console_error ''Failed to save document:'' e s1)
      | (Inr db, s1) \<Rightarrow>
          (case Date_now s1 of
             (t, s2) \<Rightarrow>
               (case db_put_document
                       \<lparr>doc_id = DOCUMENT_ID, doc_content = docJson, updatedAt = t\<rparr> s2 of
                  (Inl e, s3) \<Rightarrow> (Inl e, console_error ''Failed to save document:'' e s3)
                | (Inr u, s3) \<Rightarrow> (Inr (), s3))))"

text \<open>
  \<^verbatim>\<open>loadDocument\<close>: \<^verbatim>\<open>doc?.content || null\<close>; the catch block logs and returns null.
\<close>

definition loadDocument :: "browser \<Rightarrow> json \<times> browser" where
  "loadDocument s =
     (case getDB s of
        (Inl e, s1) \<Rightarrow> (JNull, console_error ''Failed to load document:'' e s1)
      | (Inr db, s1) \<Rightarrow>
          (case db_get_document DOCUMENT_ID s1 of
             (Inl e, s2) \<Rightarrow> (JNull, console_error ''Failed to load document:'' e s2)
           | (Inr doc, s2) \<Rightarrow>
               (case doc of
                  None \<Rightarrow> (JNull, s2)
                | Some r \<Rightarrow> (if truthy (doc_content r) then doc_content r else JNull, s2))))"

text \<open>Decimal digits of a number, as a template literal prints \<^verbatim>\<open>Date.now()\<close>.\<close>

function show_nat :: "nat \<Rightarrow> string" where
  "show_nat n =
     (if n < 10 then [''0123456789'' ! n]
      else show_nat (n div 10) @ [''0123456789'' ! (n mod 10)])"
  by pat_completeness auto
termination
  by (relation "measure id") auto

declare show_nat.simps [simp del]

text \<open>
  \<^verbatim>\<open>Math.random().toString(36).substr(2, 9)\<close>: the next result of \<^verbatim>\<open>toString(36)\<close> is
  taken from the browser; \<^verbatim>\<open>substr(2, 9)\<close> drops \<^verbatim>\<open>0.\<close> and keeps at most nine characters.
\<close>

definition random_suffix :: "browser \<Rightarrow> string \<times> browser" where
  "random_suffix s =
     (take 9 (drop 2 (randoms s (random_calls s))), s\<lparr>random_calls := Suc (random_calls s)\<rparr>)"

text \<open>
  \<^verbatim>\<open>saveImage\<close>: one \<^verbatim>\<open>Date.now()\<close> for the identifier, then \<^verbatim>\<open>Math.random()\<close>, then a
  second \<^verbatim>\<open>Date.now()\<close> for \<^verbatim>\<open>createdAt\<close>; the catch block logs and rethrows.
\<close>

definition saveImage :: "blob \<Rightarrow> browser \<Rightarrow> (error + string) \<times> browser" where
  "saveImage b s =
     (case getDB s of
        (Inl e, s1) \<Rightarrow> (Inl e, console_error ''Failed to save image:'' e s1)
      | (Inr db, s1) \<Rightarrow>
          (case Date_now s1 of
             (t1, s2) \<Rightarrow>
               (case random_suffix s2 of
                  (rnd, s3) \<Rightarrow>
                    (let imageId = ''img-'' @ show_nat t1 @ ''-'' @ rnd in
                     case Date_now s3 of
                       (t2, s4) \<Rightarrow>
                         (case db_put_image
                                 \<lparr>img_id = imageId, img_blob = b, createdAt = t2\<rparr> s4 of
                            (Inl e, s5) \<Rightarrow>
                              (Inl e, console_error ''Failed to save image:'' e s5)
                          | (Inr u, s5) \<Rightarrow> (Inr imageId, s5))))))"

text \<open>
  \<^verbatim>\<open>URL.createObjectURL\<close>: a new \<^verbatim>\<open>blob:\<close> URL, registered for the blob. The browser's
  URL is \<^verbatim>\<open>blob:\<close>, the origin and a UUID; here the registry's size stands for the UUID.
\<close>

definition createObjectURL :: "blob \<Rightarrow> browser \<Rightarrow> string \<times> browser" where
  "createObjectURL b s =
     (let url = ''blob:'' @ show_nat (length (objectURLs s))
      in (url, s\<lparr>objectURLs := AList.update url b (objectURLs s)\<rparr>))"

text \<open>
  \<^verbatim>\<open>loadImage\<close>: null when no record is found; the catch block logs and returns null.
  The argument is the run-time value: the signature says string, the caller in
  \<^verbatim>\<open>resolveImageUrls\<close> passes whatever truthy \<^verbatim>\<open>attrs.imageId\<close> the JSON holds.
\<close>

definition loadImage :: "json \<Rightarrow> browser \<Rightarrow> string option \<times> browser" where
  "loadImage imageId s =
     (case getDB s of
        (Inl e, s1) \<Rightarrow> (None, console_error ''Failed to load image:'' e s1)
      | (Inr db, s1) \<Rightarrow>
          (case db_get_image imageId s1 of
             (Inl e, s2) \<Rightarrow> (None, console_error ''Failed to load image:'' e s2)
           | (Inr img, s2) \<Rightarrow>
               (case img of
                  None \<Rightarrow> (None, s2)
                | Some r \<Rightarrow>
                    (case createObjectURL (img_blob r) s2 of
                       (objectURL, s3) \<Rightarrow> (Some objectURL, s3)))))"

text \<open>\<^verbatim>\<open>getAllImages\<close>: the catch block logs and returns the empty list.\<close>

definition getAllImages :: "browser \<Rightarrow> string list \<times> browser" where
  "getAllImages s =
     (case getDB s of
        (Inl e, s1) \<Rightarrow> ([], console_error ''Failed to get all images:'' e s1)
      | (Inr db, s1) \<Rightarrow>
          (case db_getAllKeys_images s1 of
             (Inl e, s2) \<Rightarrow> ([], console_error ''Failed to get all images:'' e s2)
           | (Inr ks, s2) \<Rightarrow> (ks, s2)))"

text \<open>\<^verbatim>\<open>deleteImage\<close>: the catch block logs and rethrows.\<close>

definition deleteImage :: "string \<Rightarrow> browser \<Rightarrow> (error + unit) \<times> browser" where
  "deleteImage imageId s =
     (case getDB s of
        (Inl e, s1) \<Rightarrow> (Inl e, console_error ''Failed to delete image:'' e s1)
      | (Inr db, s1) \<Rightarrow>
          (case db_delete_image imageId s1 of
             (Inl e, s2) \<Rightarrow> (Inl e, console_error ''Failed to delete image:'' e s2)
           | (Inr u, s2) \<Rightarrow> (Inr (), s2)))"

text \<open>
  A browser with an empty database in which no request fails and each \<^verbatim>\<open>Date.now()\<close> is a
  millisecond after the one before.
\<close>

definition fresh_browser :: browser where
  "fresh_browser =
     \<lparr>documents = [], images = [], dbInstance = False, requests = 0,
      faults = (\<lambda>n. None), clock = (\<lambda>n. 1700000000000 + n), clock_reads = 0,
      randoms = (\<lambda>n. ''0.k3j9x2m1qz7''), random_calls = 0,
      objectURLs = [], console = []\<rparr>"

section \<open>Image reference resolution (app/page.tsx)\<close>

text \<open>\<^verbatim>\<open>content.attrs?.imageId\<close>\<close>

definition image_id_of :: "json \<Rightarrow> json option" where
  "image_id_of content = opt_chain (get_prop content ''attrs'') ''imageId''"

text \<open>\<^verbatim>\<open>{...content.attrs, src: url}\<close>, where spreading \<^verbatim>\<open>undefined\<close> copies nothing.\<close>

definition spread_opt :: "json option \<Rightarrow> string \<Rightarrow> json \<Rightarrow> json" where
  "spread_opt ob k v = (case ob of None \<Rightarrow> JObj [(k, v)] | Some j \<Rightarrow> spread_set j k v)"

text \<open>
  The first \<^verbatim>\<open>if\<close> block of \<^verbatim>\<open>resolveImageUrls\<close>: \<open>Some\<close> of the node it returns, or
  \<open>None\<close> when control falls through to the rest of the function.
\<close>

definition resolve_image_node :: "json \<Rightarrow> browser \<Rightarrow> json option \<times> browser" where
  "resolve_image_node content s =
     (if get_prop content ''type'' = Some (JStr ''image'') then
        (case image_id_of content of
           None \<Rightarrow> (None, s)
         | Some imageId \<Rightarrow>
             (if truthy imageId then
                (case loadImage imageId s of
                   (None, s1) \<Rightarrow> (None, s1)
                 | (Some url, s1) \<Rightarrow>
                     (if url \<noteq> [] then
                        (Some (spread_set content ''attrs''
                                 (spread_opt (get_prop content ''attrs'') ''src'' (JStr url))), s1)
                      else (None, s1)))
              else (None, s)))
      else (None, s))"

lemma size_map_of: "map_of kvs k = Some v \<Longrightarrow> size v < size (JObj kvs)"
  by (induction kvs) (auto split: if_splits)

lemma size_get_prop: "get_prop j k = Some v \<Longrightarrow> size v < size j"
  by (cases j) (auto dest: size_map_of)

text \<open>
  \<^verbatim>\<open>resolveImageUrls\<close>. \<^verbatim>\<open>Promise.all\<close> over the mapped children starts the calls from
  left to right; \<open>resolveAll\<close> runs them in that order, one after the other.
\<close>

function resolveImageUrls :: "json \<Rightarrow> browser \<Rightarrow> json \<times> browser"
  and resolveAll :: "json list \<Rightarrow> browser \<Rightarrow> json list \<times> browser"
where
  "resolveImageUrls content s =
     (if \<not> truthy content then (content, s)
      else (case resolve_image_node content s of
              (Some resolved, s1) \<Rightarrow> (resolved, s1)
            | (None, s1) \<Rightarrow>
                (case get_prop content ''content'' of
                   Some (JArr children) \<Rightarrow>
                     (case resolveAll children s1 of
                        (resolvedChildren, s2) \<Rightarrow>
                          (spread_set content ''content'' (JArr resolvedChildren), s2))
                 | _ \<Rightarrow> (content, s1))))"
| "resolveAll [] s = ([], s)"
| "resolveAll (child # rest) s =
     (case resolveImageUrls child s of
        (r, s1) \<Rightarrow> (case resolveAll rest s1 of (rs, s2) \<Rightarrow> (r # rs, s2)))"
  by pat_completeness auto
termination
  by (relation "measure (\<lambda>x. case x of Inl (c, s) \<Rightarrow> size c | Inr (cs, s) \<Rightarrow> size_list size cs)")
     (auto dest!: size_get_prop)

declare resolveImageUrls.simps [simp del]

text \<open>The node reached from a node by a path of child indices through content arrays.\<close>

fun node_at :: "json \<Rightarrow> nat list \<Rightarrow> json option" where
  "node_at j [] = Some j"
| "node_at j (i # p) =
     (case get_prop j ''content'' of
        Some (JArr cs) \<Rightarrow> (if i < length cs then node_at (cs ! i) p else None)
      | _ \<Rightarrow> None)"

text \<open>
  An image node whose identifier the images store can resolve: type \<^verbatim>\<open>image\<close> and a
  non-empty string \<^verbatim>\<open>attrs.imageId\<close> under which a record is stored.
\<close>

definition resolvable :: "(string \<times> image_record) list \<Rightarrow> json \<Rightarrow> bool" where
  "resolvable imgs n =
     (get_prop n ''type'' = Some (JStr ''image'') \<and>
      (case image_id_of n of
         Some (JStr i) \<Rightarrow> i \<noteq> [] \<and> map_of imgs i \<noteq> None
       | _ \<Rightarrow> False))"

text \<open>A path along which no node above its end is a resolvable image node.\<close>

fun walked :: "(string \<times> image_record) list \<Rightarrow> json \<Rightarrow> nat list \<Rightarrow> bool" where
  "walked imgs j [] = True"
| "walked imgs j (i # p) =
     (\<not> resolvable imgs j \<and>
      (case get_prop j ''content'' of
         Some (JArr cs) \<Rightarrow> i < length cs \<and> walked imgs (cs ! i) p
       | _ \<Rightarrow> False))"

definition no_faults :: "browser \<Rightarrow> bool" where
  "no_faults s = (\<forall>n. faults s n = None)"

text \<open>
  A storage failure with error \<open>e\<close> in the next operation: its first request rejects, or
  that request opens the database and the one after it rejects.
\<close>

definition storage_fails :: "browser \<Rightarrow> error \<Rightarrow> bool" where
  "storage_fails s e =
     (faults s (requests s) = Some e \<or>
      (\<not> dbInstance s \<and> faults s (requests s) = None \<and> faults s (Suc (requests s)) = Some e))"

section \<open>The image extension (lib/custom-image.ts, components/Editor.tsx)\<close>

text \<open>The options of \<^verbatim>\<open>setImage\<close>; an absent option is no key of the attrs object.\<close>

record image_options =
  src :: "string option"
  alt :: "string option"
  title :: "string option"
  imageId :: "string option"

definition option_entry :: "string \<Rightarrow> string option \<Rightarrow> (string \<times> json) list" where
  "option_entry k v = (case v of None \<Rightarrow> [] | Some x \<Rightarrow> [(k, JStr x)])"

text \<open>
  \<^verbatim>\<open>setImage\<close> inserts \<^verbatim>\<open>{ type: this.name, attrs: options }\<close>; this is the node. The
  extension's name is \<^verbatim>\<open>image\<close>, as the drop handler writes it.
\<close>

definition setImage :: "image_options \<Rightarrow> json" where
  "setImage options =
     JObj [(''type'', JStr ''image''),
           (''attrs'', JObj (option_entry ''src'' (src options) @ option_entry ''alt'' (alt options)
                             @ option_entry ''title'' (title options)
                             @ option_entry ''imageId'' (imageId options)))]"

text \<open>The \<^verbatim>\<open>imageId\<close> attribute: rendered as \<^verbatim>\<open>data-image-id\<close>, and parsed from it.\<close>

definition imageId_renderHTML :: "json \<Rightarrow> (string \<times> json) list" where
  "imageId_renderHTML attributes =
     (case get_prop attributes ''imageId'' of
        None \<Rightarrow> []
      | Some i \<Rightarrow> (if \<not> truthy i then [] else [(''data-image-id'', i)]))"

definition imageId_parseHTML :: "(string \<times> string) list \<Rightarrow> json" where
  "imageId_parseHTML element =
     (case map_of element ''data-image-id'' of None \<Rightarrow> JNull | Some v \<Rightarrow> JStr v)"

text \<open>\<^verbatim>\<open>CustomImage.configure({ inline: false, allowBase64: true })\<close>\<close>

record image_config =
  inline :: bool
  allowBase64 :: bool

definition CustomImage_config :: image_config where
  "CustomImage_config = \<lparr>inline = False, allowBase64 = True\<rparr>"

text \<open>\<^verbatim>\<open>s.indexOf(sub) !== -1\<close>\<close>

fun has_substring :: "string \<Rightarrow> string \<Rightarrow> bool" where
  "has_substring [] sub = (sub = [])"
| "has_substring (c # cs) sub = (take (length sub) (c # cs) = sub \<or> has_substring cs sub)"

text \<open>A clipboard item: its type and what \<^verbatim>\<open>getAsFile()\<close> returns.\<close>

record clipboard_item =
  item_type :: string
  getAsFile :: "blob option"

text \<open>
  \<^verbatim>\<open>handleImagePaste\<close>; the argument is \<^verbatim>\<open>event.clipboardData?.items\<close>. The loop goes on
  to the next item when there is no file, when saving throws (logged) and when no URL
  comes back.
\<close>

fun handleImagePaste_items ::
  "clipboard_item list \<Rightarrow> browser \<Rightarrow> (string \<times> string) option \<times> browser" where
  "handleImagePaste_items [] s = (None, s)"
| "handleImagePaste_items (item # rest) s =
     (if has_substring (item_type item) ''image'' then
        (case getAsFile item of
           None \<Rightarrow> handleImagePaste_items rest s
         | Some b \<Rightarrow>
             (case saveImage b s of
                (Inl e, s1) \<Rightarrow>
                  handleImagePaste_items rest
                    (console_error ''Failed to handle pasted image:'' e s1)
              | (Inr i, s1) \<Rightarrow>
                  (case loadImage (JStr i) s1 of
                     (None, s2) \<Rightarrow> handleImagePaste_items rest s2
                   | (Some u, s2) \<Rightarrow>
                       (if u \<noteq> [] then (Some (i, u), s2)
                        else handleImagePaste_items rest s2))))
      else handleImagePaste_items rest s)"

definition handleImagePaste ::
  "clipboard_item list option \<Rightarrow> browser \<Rightarrow> (string \<times> string) option \<times> browser" where
  "handleImagePaste items s =
     (case items of None \<Rightarrow> (None, s) | Some its \<Rightarrow> handleImagePaste_items its s)"

text \<open>
  The editor's \<^verbatim>\<open>handlePaste\<close>: the image node it inserts, once the editor exists, when
  \<^verbatim>\<open>handleImagePaste\<close> returns image data, with \<^verbatim>\<open>src\<close> and \<^verbatim>\<open>imageId\<close> taken from it.
\<close>

definition handlePaste :: "clipboard_item list option \<Rightarrow> browser \<Rightarrow> json option \<times> browser" where
  "handlePaste items s =
     (case handleImagePaste items s of
        (None, s1) \<Rightarrow> (None, s1)
      | (Some (i, u), s1) \<Rightarrow>
          (Some (setImage \<lparr>src = Some u, alt = None, title = None, imageId = Some i\<rparr>), s1))"

lemma size_child: "x \<in> set xs \<Longrightarrow> size x \<le> size_list size xs"
  by (simp add: size_list_estimation')

text \<open>All nodes of a document, through content arrays.\<close>

function nodes_of :: "json \<Rightarrow> json list" where
  "nodes_of j =
     j # (case get_prop j ''content'' of
            Some (JArr cs) \<Rightarrow> concat (map nodes_of cs)
          | _ \<Rightarrow> [])"
  by pat_completeness auto
termination
  by (relation "measure size") (auto dest!: size_get_prop size_child)

declare nodes_of.simps [simp del]

text \<open>A \<^verbatim>\<open>src\<close> that carries the image's bytes itself: a \<^verbatim>\<open>data:\<close> URL.\<close>

definition inline_data :: "json \<Rightarrow> bool" where
  "inline_data n =
     (case opt_chain (get_prop n ''attrs'') ''src'' of
        Some (JStr u) \<Rightarrow> take 5 u = ''data:''
      | _ \<Rightarrow> False)"

text \<open>
  Every image node of the document names a stored image by a truthy \<^verbatim>\<open>imageId\<close> and
  embeds no image data.
\<close>

definition images_by_id_only :: "json \<Rightarrow> bool" where
  "images_by_id_only d =
     list_all (\<lambda>n. get_prop n ''type'' = Some (JStr ''image'') \<longrightarrow>
                    truthy_opt (image_id_of n) \<and> \<not> inline_data n)
              (nodes_of d)"

section \<open>The autosave hook (hooks/useAutosave.tsx)\<close>

datatype status_kind = Idle | Typing | Saving | Saved

record AutosaveStatus =
  status :: status_kind
  lastSaved :: "nat option"
  countdown :: int

text \<open>
  A timer of the browser: the timeout that calls \<^verbatim>\<open>save\<close>, with the time it is due, or
  the countdown interval, with the time of its next run and the \<^verbatim>\<open>remainingSeconds\<close> of
  its closure.
\<close>

datatype timer = Timeout nat | Interval nat int

text \<open>
  The hook's state (\<^verbatim>\<open>status\<close>, here \<open>statusState\<close>), its three refs, and the part of the browser it works
  with: the active timers by identifier (identifiers are positive, so a ref that holds one
  is truthy), the time in milliseconds, the times at which \<^verbatim>\<open>onSave\<close> has been called
  (latest first), the number of \<^verbatim>\<open>save\<close> calls waiting at \<^verbatim>\<open>await onSave()\<close>, and the console.
\<close>

record hook =
  statusState :: AutosaveStatus
  timeoutRef :: "nat option"
  countdownIntervalRef :: "nat option"
  pendingChangesRef :: bool
  timers :: "(nat \<times> timer) list"
  nextTimer :: nat
  now :: nat
  onSaveCalls :: "nat list"
  awaiting :: nat
  errorLog :: "(string \<times> error) list"

definition initial_hook :: hook where
  "initial_hook =
     \<lparr>statusState = \<lparr>status = Idle, lastSaved = None, countdown = 0\<rparr>,
      timeoutRef = None, countdownIntervalRef = None, pendingChangesRef = False,
      timers = [], nextTimer = 1, now = 0, onSaveCalls = [], awaiting = 0, errorLog = []\<rparr>"

definition setStatus :: "(AutosaveStatus \<Rightarrow> AutosaveStatus) \<Rightarrow> hook \<Rightarrow> hook" where
  "setStatus f s = s\<lparr>statusState := f (statusState s)\<rparr>"

text \<open>\<^verbatim>\<open>clearTimeout\<close> and \<^verbatim>\<open>clearInterval\<close> remove the timer with that identifier, if any.\<close>

definition clearTimeout :: "nat \<Rightarrow> hook \<Rightarrow> hook" where
  "clearTimeout i s = s\<lparr>timers := AList.delete i (timers s)\<rparr>"

definition clearInterval :: "nat \<Rightarrow> hook \<Rightarrow> hook" where
  "clearInterval i s = s\<lparr>timers := AList.delete i (timers s)\<rparr>"

definition setTimeout :: "nat \<Rightarrow> hook \<Rightarrow> nat \<times> hook" where
  "setTimeout delay s =
     (nextTimer s,
      s\<lparr>timers := timers s @ [(nextTimer s, Timeout (now s + delay))],
        nextTimer := Suc (nextTimer s)\<rparr>)"

definition setInterval :: "int \<Rightarrow> nat \<Rightarrow> hook \<Rightarrow> nat \<times> hook" where
  "setInterval remainingSeconds period s =
     (nextTimer s,
      s\<lparr>timers := timers s @ [(nextTimer s, Interval (now s + period) remainingSeconds)],
        nextTimer := Suc (nextTimer s)\<rparr>)"

definition clearTimers :: "hook \<Rightarrow> hook" where
  "clearTimers s =
     (let s1 = (case timeoutRef s of
                  None \<Rightarrow> s
                | Some i \<Rightarrow> (clearTimeout i s)\<lparr>timeoutRef := None\<rparr>)
      in (case countdownIntervalRef s1 of
            None \<Rightarrow> s1
          | Some i \<Rightarrow> (clearInterval i s1)\<lparr>countdownIntervalRef := None\<rparr>))"

text \<open>
  \<^verbatim>\<open>save\<close>, in three parts: up to \<^verbatim>\<open>await onSave()\<close>, which calls \<^verbatim>\<open>onSave\<close>; the rest of
  the \<^verbatim>\<open>try\<close> block, which runs when the promise is fulfilled; the \<^verbatim>\<open>catch\<close> block, which
  runs when it is rejected (or \<^verbatim>\<open>onSave\<close> throws).
\<close>

definition save_start :: "hook \<Rightarrow> hook" where
  "save_start s =
     (let s1 = clearTimers s;
          s2 = setStatus (\<lambda>prev. prev\<lparr>status := Saving, countdown := 0\<rparr>) s1
      in s2\<lparr>onSaveCalls := now s2 # onSaveCalls s2, awaiting := Suc (awaiting s2)\<rparr>)"

definition save_fulfilled :: "hook \<Rightarrow> hook" where
  "save_fulfilled s =
     (let s1 = setStatus (\<lambda>prev. \<lparr>status = Saved, lastSaved = Some (now s), countdown = 0\<rparr>) s
      in s1\<lparr>pendingChangesRef := False\<rparr>)"

definition save_rejected :: "error \<Rightarrow> hook \<Rightarrow> hook" where
  "save_rejected e s =
     (let s1 = s\<lparr>errorLog := errorLog s @ [(''Autosave failed:'', e)]\<rparr>
      in setStatus (\<lambda>prev. prev\<lparr>status := Idle, countdown := 0\<rparr>) s1)"

text \<open>\<^verbatim>\<open>Math.ceil(delay / 1000)\<close>\<close>

definition ceil_seconds :: "nat \<Rightarrow> int" where
  "ceil_seconds delay = int ((delay + 999) div 1000)"

definition triggerAutosave :: "nat \<Rightarrow> hook \<Rightarrow> hook" where
  "triggerAutosave delay s =
     (let s1 = clearTimers s;
          s2 = s1\<lparr>pendingChangesRef := True\<rparr>;
          s3 = setStatus (\<lambda>prev. prev\<lparr>status := Typing, countdown := ceil_seconds delay\<rparr>) s2
      in (case setInterval (ceil_seconds delay) 1000 s3 of
            (i, s4) \<Rightarrow>
              (case setTimeout delay (s4\<lparr>countdownIntervalRef := Some i\<rparr>) of
                 (t, s5) \<Rightarrow> s5\<lparr>timeoutRef := Some t\<rparr>)))"

text \<open>
  The interval's callback, run with the value \<^verbatim>\<open>remainingSeconds\<close> has after
  \<^verbatim>\<open>remainingSeconds -= 1\<close>.
\<close>

definition countdown_callback :: "int \<Rightarrow> hook \<Rightarrow> hook" where
  "countdown_callback remainingSeconds s =
     (let s1 = setStatus (\<lambda>prev. prev\<lparr>countdown := remainingSeconds\<rparr>) s
      in (case countdownIntervalRef s1 of
            None \<Rightarrow> s1
          | Some i \<Rightarrow>
              (if remainingSeconds \<le> 0 then (clearInterval i s1)\<lparr>countdownIntervalRef := None\<rparr>
               else s1)))"

text \<open>
  The browser runs a timer that is due: a timeout leaves the table and calls \<^verbatim>\<open>save\<close>;
  an interval is set for its next run, a second later, and its callback runs. A timer
  cleared in the meantime does nothing.
\<close>

definition fire :: "nat \<Rightarrow> hook \<Rightarrow> hook" where
  "fire i s =
     (case map_of (timers s) i of
        None \<Rightarrow> s
      | Some (Timeout due) \<Rightarrow> save_start (s\<lparr>timers := AList.delete i (timers s)\<rparr>)
      | Some (Interval due r) \<Rightarrow>
          countdown_callback (r - 1)
            (s\<lparr>timers := AList.update i (Interval (due + 1000) (r - 1)) (timers s)\<rparr>))"

fun due_time :: "timer \<Rightarrow> nat" where
  "due_time (Timeout due) = due"
| "due_time (Interval due r) = due"

text \<open>One millisecond passes; the timers then due run in the order they were set.\<close>

definition tick :: "hook \<Rightarrow> hook" where
  "tick s =
     (let s1 = s\<lparr>now := Suc (now s)\<rparr>
      in fold fire (map fst (filter (\<lambda>(i, t). due_time t \<le> now s1) (timers s1))) s1)"

text \<open>\<^verbatim>\<open>handleBeforeUnload\<close> calls \<^verbatim>\<open>onSave\<close> itself, without \<^verbatim>\<open>save\<close>.\<close>

definition handleBeforeUnload :: "hook \<Rightarrow> hook" where
  "handleBeforeUnload s =
     (if pendingChangesRef s then s\<lparr>onSaveCalls := now s # onSaveCalls s\<rparr> else s)"

text \<open>
  What can happen to the hook: an edit (the page calls \<^verbatim>\<open>triggerAutosave\<close>), a millisecond
  passing, the promise of a waiting \<^verbatim>\<open>save\<close> being fulfilled or rejected, a direct call
  of the exported \<^verbatim>\<open>save\<close>, the cleanup of the effect (which calls \<^verbatim>\<open>clearTimers\<close>), and
  the page being unloaded.
\<close>

datatype event = Edit | Tick | Fulfilled | Rejected error | CallSave | Cleanup | BeforeUnload

fun step :: "nat \<Rightarrow> event \<Rightarrow> hook \<Rightarrow> hook" where
  "step delay Edit s = triggerAutosave delay s"
| "step delay Tick s = tick s"
| "step delay Fulfilled s =
     (if awaiting s = 0 then s else save_fulfilled (s\<lparr>awaiting := awaiting s - 1\<rparr>))"
| "step delay (Rejected e) s =
     (if awaiting s = 0 then s else save_rejected e (s\<lparr>awaiting := awaiting s - 1\<rparr>))"
| "step delay CallSave s = save_start s"
| "step delay Cleanup s = clearTimers s"
| "step delay BeforeUnload s = handleBeforeUnload s"

definition run :: "nat \<Rightarrow> event list \<Rightarrow> hook \<Rightarrow> hook" where
  "run delay es s = fold (step delay) es s"

text \<open>
  An edit in the page (app/page.tsx). \<^verbatim>\<open>handleEditorUpdate\<close> calls \<^verbatim>\<open>triggerAutosave\<close>, whose
  \<^verbatim>\<open>setStatus\<close> sets a new status object, so \<^verbatim>\<open>Home\<close> renders again. Each render passes a
  new \<^verbatim>\<open>onSave\<close> function to \<^verbatim>\<open>useAutosave\<close> (the arrow function written in the call), and
  the hook's effect depends on \<^verbatim>\<open>[onSave]\<close>: it is run again, its cleanup first. So in the
  page an edit is followed by the cleanup before any time has passed.
\<close>

definition page_edit :: "event list" where
  "page_edit = [Edit, Cleanup]"

text \<open>The times at which the pending \<^verbatim>\<open>save\<close> timeouts are due.\<close>

definition pending_saves :: "hook \<Rightarrow> nat list" where
  "pending_saves s = concat (map (\<lambda>(i, t). case t of Timeout due \<Rightarrow> [due] | _ \<Rightarrow> []) (timers s))"

section \<open>Example values\<close>

definition welcome_doc :: json where
  "welcome_doc =
     JObj [(''type'', JStr ''doc''),
           (''content'', JArr [JObj [(''type'', JStr ''paragraph''),
                                     (''content'', JArr [JObj [(''type'', JStr ''text''),
                                                               (''text'', JStr ''Welcome to Notes'')]])]])]"

text \<open>A browser whose second database request fails.\<close>

definition quota_browser :: browser where
  "quota_browser =
     fresh_browser\<lparr>faults := (\<lambda>n. if n = 1 then Some (Error ''QuotaExceededError'') else None)\<rparr>"

definition png :: blob where
  "png = Blob ''image/png'' [137, 80, 78, 71]"

text \<open>A browser that has one image stored, and image nodes that name it or a missing one.\<close>

definition image_browser :: browser where
  "image_browser =
     fresh_browser\<lparr>images := [(''img-a'', \<lparr>img_id = ''img-a'', img_blob = png, createdAt = 5\<rparr>)]\<rparr>"

definition image_node :: "string \<Rightarrow> json" where
  "image_node i = JObj [(''type'', JStr ''image''), (''attrs'', JObj [(''imageId'', JStr i)])]"


text \<open>A document whose only image node names a blob that is not stored.\<close>

definition orphan_doc :: json where
  "orphan_doc = JObj [(''type'', JStr ''doc''), (''content'', JArr [image_node ''img-gone''])]"

definition image_doc :: json where
  "image_doc =
     JObj [(''type'', JStr ''doc''),
           (''content'', JArr [JObj [(''type'', JStr ''paragraph'')], image_node ''img-a''])]"

definition png_item :: clipboard_item where
  "png_item = \<lparr>item_type = ''image/png'', getAsFile = Some png\<rparr>"

text \<open>A document with an image node whose \<^verbatim>\<open>src\<close> is a base64 \<^verbatim>\<open>data:\<close> URL.\<close>

definition inline_doc :: json where
  "inline_doc =
     JObj [(''type'', JStr ''doc''),
           (''content'',
            JArr [setImage \<lparr>src = Some ''data:image/png;base64,iVBORw0KGgo='', alt = None,
                            title = None, imageId = None\<rparr>])]"

text \<open>The hook's default: \<^verbatim>\<open>delay = 5000\<close>.\<close>

definition default_delay :: nat where
  "default_delay = 5000"

section \<open>Predicates of the statements\<close>

text \<open>States that differ in neither object store nor in which requests fail.\<close>

definition same_db :: "browser \<Rightarrow> browser \<Rightarrow> bool" where
  "same_db s t = (images t = images s \<and> documents t = documents s \<and> faults t = faults s)"

text \<open>
  The object URLs the browser has handed out are \<^verbatim>\<open>blob:0\<close>, \<^verbatim>\<open>blob:1\<close> and so on, in this
  order: the registry of a browser in which every URL came from \<^verbatim>\<open>URL.createObjectURL\<close>.
\<close>

definition urls_wf :: "browser \<Rightarrow> bool" where
  "urls_wf s =
     (map fst (objectURLs s) = map (\<lambda>k. ''blob:'' @ show_nat k) [0..<length (objectURLs s)])"

text \<open>
  A later state of the same database: neither store nor the failing requests differ, and
  every object URL registered then is still registered, for the same blob.
\<close>

definition later :: "browser \<Rightarrow> browser \<Rightarrow> bool" where
  "later s t =
     (same_db s t \<and> urls_wf t \<and>
      (\<forall>u b. map_of (objectURLs s) u = Some b \<longrightarrow> map_of (objectURLs t) u = Some b))"

text \<open>A state that differs in neither store, nor in the failing requests or the object URLs.\<close>

definition frame :: "browser \<Rightarrow> browser \<Rightarrow> bool" where
  "frame s t =
     (images t = images s \<and> documents t = documents s \<and> faults t = faults s \<and>
      objectURLs t = objectURLs s)"

text \<open>The number a string of decimal digits stands for.\<close>

definition digit_value :: "char \<Rightarrow> nat" where
  "digit_value c = length (takeWhile (\<lambda>x. x \<noteq> c) ''0123456789'')"

definition digits_value :: "string \<Rightarrow> nat" where
  "digits_value cs = foldl (\<lambda>a c. 10 * a + digit_value c) 0 cs"

text \<open>
  Image nodes are leaves: no node of type \<^verbatim>\<open>image\<close> in the document has a content array.
  This holds of every document the editor produces, whose image node type has no content.
\<close>

definition image_leaves :: "json \<Rightarrow> bool" where
  "image_leaves d =
     list_all (\<lambda>n. get_prop n ''type'' = Some (JStr ''image'') \<longrightarrow>
                    (case get_prop n ''content'' of Some (JArr cs) \<Rightarrow> False | _ \<Rightarrow> True))
              (nodes_of d)"

text \<open>Every active timer is the one held by \<^verbatim>\<open>timeoutRef\<close> or by \<^verbatim>\<open>countdownIntervalRef\<close>.\<close>

definition timers_referenced :: "hook \<Rightarrow> bool" where
  "timers_referenced s =
     (\<forall>(i, t) \<in> set (timers s). timeoutRef s = Some i \<or> countdownIntervalRef s = Some i)"

text \<open>
  A save is pending: its timeout, due at \<open>dl\<close>, is the one \<^verbatim>\<open>timeoutRef\<close> holds, and the only
  other timer, if any, is the countdown interval held by \<^verbatim>\<open>countdownIntervalRef\<close>.
\<close>

definition pending :: "hook \<Rightarrow> nat \<Rightarrow> nat \<Rightarrow> bool" where
  "pending s tid dl =
     (timeoutRef s = Some tid \<and>
      (timers s = [(tid, Timeout dl)] \<or>
       (\<exists>iid d r. iid \<noteq> tid \<and> countdownIntervalRef s = Some iid \<and>
          timers s = [(iid, Interval d r), (tid, Timeout dl)])))"

section \<open>Lemmas on the object store\<close>

lemmas storage_defs =
  saveDocument_def loadDocument_def saveImage_def loadImage_def getAllImages_def deleteImage_def
  getDB_def request_def console_error_def db_put_document_def db_get_document_def
  db_put_image_def db_get_image_def db_getAllKeys_images_def db_delete_image_def
  random_suffix_def createObjectURL_def Date_now_def

lemma falsy_values: "\<not> truthy j \<longleftrightarrow> j = JNull \<or> j = JStr [] \<or> j = JNum 0 \<or> j = JBool False"
  by (cases j) auto

lemma fails_loadDocument: "storage_fails s e \<Longrightarrow>
   fst (loadDocument s) = JNull \<and>
   console (snd (loadDocument s)) = console s @ [(''Failed to load document:'', e)]"
  unfolding storage_fails_def by (elim disjE conjE) (simp_all add: storage_defs)

lemma fails_loadImage: "storage_fails s e \<Longrightarrow>
   fst (loadImage (JStr i) s) = None \<and>
   console (snd (loadImage (JStr i) s)) = console s @ [(''Failed to load image:'', e)]"
  unfolding storage_fails_def by (elim disjE conjE) (simp_all add: storage_defs)

lemma fails_getAllImages: "storage_fails s e \<Longrightarrow>
   fst (getAllImages s) = [] \<and>
   console (snd (getAllImages s)) = console s @ [(''Failed to get all images:'', e)]"
  unfolding storage_fails_def by (elim disjE conjE) (simp_all add: storage_defs)

lemma fails_saveDocument: "storage_fails s e \<Longrightarrow>
   fst (saveDocument d s) = Inl e \<and>
   console (snd (saveDocument d s)) = console s @ [(''Failed to save document:'', e)] \<and>
   documents (snd (saveDocument d s)) = documents s"
  unfolding storage_fails_def by (elim disjE conjE) (simp_all add: storage_defs)

lemma fails_saveImage: "storage_fails s e \<Longrightarrow>
   fst (saveImage b s) = Inl e \<and>
   console (snd (saveImage b s)) = console s @ [(''Failed to save image:'', e)] \<and>
   images (snd (saveImage b s)) = images s"
  unfolding storage_fails_def by (elim disjE conjE) (simp_all add: storage_defs Let_def)

lemma fails_deleteImage: "storage_fails s e \<Longrightarrow>
   fst (deleteImage i s) = Inl e \<and>
   console (snd (deleteImage i s)) = console s @ [(''Failed to delete image:'', e)] \<and>
   images (snd (deleteImage i s)) = images s"
  unfolding storage_fails_def by (elim disjE conjE) (simp_all add: storage_defs)

section \<open>Lemmas on the tree walk\<close>


lemma same_db_refl [simp]: "same_db s s"
  by (simp add: same_db_def)

lemma same_db_trans: "same_db s t \<Longrightarrow> same_db t u \<Longrightarrow> same_db s u"
  by (simp add: same_db_def)

lemma getDB_same_db: "same_db s (snd (getDB s))"
  by (simp add: same_db_def getDB_def request_def split: option.splits)

lemma loadImage_same_db: "same_db s (snd (loadImage k s))"
  by (simp add: same_db_def storage_defs Let_def split: option.splits)

lemma loadImage_same_db_pair: "loadImage k s = (r, s1) \<Longrightarrow> same_db s s1"
  using loadImage_same_db [of s k] by simp

lemma resolve_image_node_same_db: "same_db s (snd (resolve_image_node n s))"
  by (auto simp add: resolve_image_node_def split: option.splits prod.splits
        dest: loadImage_same_db_pair)

lemma resolve_same_db:
  "same_db s (snd (resolveImageUrls c s))"
  "same_db s (snd (resolveAll cs s))"
proof (induction c s and cs s rule: resolveImageUrls_resolveAll.induct)
  case (1 content s)
  show ?case
  proof (cases "resolve_image_node content s")
    case (Pair r s1)
    have s1: "same_db s s1"
      using resolve_image_node_same_db [of s content] Pair by simp
    show ?thesis
    proof (cases "truthy content")
      case False
      then show ?thesis by (simp add: resolveImageUrls.simps)
    next
      case True
      show ?thesis
      proof (cases r)
        case (Some a)
        with True Pair s1 show ?thesis by (simp add: resolveImageUrls.simps)
      next
        case None
        show ?thesis
        proof (cases "get_prop content ''content''")
          case N2: None
          with True Pair None s1 show ?thesis by (simp add: resolveImageUrls.simps)
        next
          case (Some c)
          show ?thesis
          proof (cases c)
            case (JArr children)
            have "same_db s1 (snd (resolveAll children s1))"
              using "1.IH" [of None s1 c children] True Pair None Some JArr by simp
            with s1 have "same_db s (snd (resolveAll children s1))"
              by (rule same_db_trans)
            with True Pair None Some JArr show ?thesis
              by (auto simp add: resolveImageUrls.simps split: prod.splits)
          qed (use True Pair None Some s1 in \<open>simp_all add: resolveImageUrls.simps\<close>)
        qed
      qed
    qed
  qed
next
  case (2 s)
  then show ?case by simp
next
  case (3 child rest s)
  obtain r s1 where r: "resolveImageUrls child s = (r, s1)" by force
  obtain rs s2 where rs: "resolveAll rest s1 = (rs, s2)" by force
  have "same_db s s1" using "3.IH"(1) r by simp
  moreover have "same_db s1 s2" using "3.IH"(2) [of r s1] r rs by simp
  ultimately show ?case using r rs by (simp add: same_db_trans)
qed

lemma no_faults_same_db: "same_db s t \<Longrightarrow> no_faults s \<Longrightarrow> no_faults t"
  by (simp add: same_db_def no_faults_def)

lemma loadImage_stored:
  "no_faults s \<Longrightarrow> map_of (images s) i = Some r \<Longrightarrow>
   fst (loadImage (JStr i) s) = Some (''blob:'' @ show_nat (length (objectURLs s)))"
  by (simp add: storage_defs no_faults_def Let_def)

lemma loadImage_missing: "map_of (images s) i = None \<Longrightarrow> fst (loadImage (JStr i) s) = None"
  by (simp add: storage_defs Let_def split: option.splits)

lemma loadImage_not_string: "\<forall>i. k \<noteq> JStr i \<Longrightarrow> fst (loadImage k s) = None"
  by (cases k) (simp_all add: storage_defs Let_def split: option.splits)

lemma loadImage_quiet:
  "no_faults s \<Longrightarrow> console (snd (loadImage (JStr i) s)) = console s"
  by (simp add: storage_defs no_faults_def Let_def split: option.splits)

lemma resolve_image_node_resolvable:
  assumes "no_faults s" and "resolvable (images s) n"
  shows "\<exists>i url. image_id_of n = Some (JStr i) \<and> fst (loadImage (JStr i) s) = Some url \<and>
     fst (resolve_image_node n s) =
       Some (spread_set n ''attrs'' (spread_opt (get_prop n ''attrs'') ''src'' (JStr url)))"
proof -
  from assms(2) obtain i r where ty: "get_prop n ''type'' = Some (JStr ''image'')"
    and i: "image_id_of n = Some (JStr i)" and ne: "i \<noteq> []" and r: "map_of (images s) i = Some r"
    by (auto simp add: resolvable_def split: option.splits json.splits)
  let ?url = "''blob:'' @ show_nat (length (objectURLs s))"
  have l: "fst (loadImage (JStr i) s) = Some ?url"
    using assms(1) r by (rule loadImage_stored)
  then have "fst (resolve_image_node n s) =
       Some (spread_set n ''attrs'' (spread_opt (get_prop n ''attrs'') ''src'' (JStr ?url)))"
    using ty i ne by (auto simp add: resolve_image_node_def split: prod.splits)
  with i l show ?thesis by blast
qed

lemma resolve_image_node_not_resolvable:
  assumes "\<not> resolvable (images s) n"
  shows "fst (resolve_image_node n s) = None"
proof (cases "get_prop n ''type'' = Some (JStr ''image'')")
  case False
  then show ?thesis by (simp add: resolve_image_node_def)
next
  case True
  show ?thesis
  proof (cases "image_id_of n")
    case None
    with True show ?thesis by (simp add: resolve_image_node_def)
  next
    case (Some k)
    have "fst (loadImage k s) = None" if "truthy k"
    proof (cases "\<exists>i. k = JStr i")
      case True
      then obtain i where k: "k = JStr i" by blast
      with that have "i \<noteq> []" by simp
      with assms \<open>get_prop n ''type'' = Some (JStr ''image'')\<close> Some k
      have "map_of (images s) i = None"
        by (simp add: resolvable_def)
      with k show ?thesis by (simp add: loadImage_missing)
    next
      case False
      then show ?thesis by (simp add: loadImage_not_string)
    qed
    with True Some show ?thesis
      by (auto simp add: resolve_image_node_def split: prod.splits option.splits)
  qed
qed

lemma resolveAll_length: "length (fst (resolveAll cs s)) = length cs"
proof (induction cs arbitrary: s)
  case Nil
  then show ?case by simp
next
  case (Cons c cs)
  obtain r s1 where r: "resolveImageUrls c s = (r, s1)" by force
  obtain rs s2 where rs: "resolveAll cs s1 = (rs, s2)" by force
  from Cons.IH [of s1] rs have "length rs = length cs" by simp
  with r rs show ?case by simp
qed

lemma resolveAll_nth:
  "i < length cs \<Longrightarrow>
   \<exists>t. same_db s t \<and> fst (resolveAll cs s) ! i = fst (resolveImageUrls (cs ! i) t)"
proof (induction cs arbitrary: s i)
  case Nil
  then show ?case by simp
next
  case (Cons c cs)
  obtain r s1 where r: "resolveImageUrls c s = (r, s1)" by force
  obtain rs s2 where rs: "resolveAll cs s1 = (rs, s2)" by force
  have s1: "same_db s s1" using resolve_same_db(1) [of s c] r by simp
  show ?case
  proof (cases i)
    case 0
    with r rs show ?thesis by (auto intro!: exI [of _ s])
  next
    case (Suc j)
    with Cons.prems have "j < length cs" by simp
    from Cons.IH [OF this, of s1] obtain t where
      t: "same_db s1 t" "fst (resolveAll cs s1) ! j = fst (resolveImageUrls (cs ! j) t)"
      by blast
    from s1 t(1) have "same_db s t" by (rule same_db_trans)
    with t(2) Suc r rs show ?thesis by (auto intro!: exI [of _ t])
  qed
qed

lemma get_prop_spread_set_same:
  "get_prop n k' = Some v' \<Longrightarrow> get_prop (spread_set n k v) k = Some v"
  by (cases n) (simp_all add: update_conv')

lemma get_prop_spread_set_other:
  "get_prop n k' = Some v' \<Longrightarrow> k'' \<noteq> k \<Longrightarrow> get_prop (spread_set n k v) k'' = get_prop n k''"
  by (cases n) (simp_all add: update_conv')

lemma get_prop_truthy: "get_prop n k = Some v \<Longrightarrow> truthy n"
  by (cases n) simp_all

lemma resolve_children:
  assumes "\<not> resolvable (images s) n" and "get_prop n ''content'' = Some (JArr cs)"
  shows "fst (resolveImageUrls n s) =
     spread_set n ''content'' (JArr (fst (resolveAll cs (snd (resolve_image_node n s)))))"
  using resolve_image_node_not_resolvable [OF assms(1)] get_prop_truthy [OF assms(2)] assms(2)
  by (auto simp add: resolveImageUrls.simps split: prod.splits)

lemma resolve_leaf:
  assumes "\<not> resolvable (images s) n" and "\<forall>cs. get_prop n ''content'' \<noteq> Some (JArr cs)"
  shows "fst (resolveImageUrls n s) = n"
  using resolve_image_node_not_resolvable [OF assms(1)] assms(2)
  by (auto simp add: resolveImageUrls.simps split: prod.splits option.splits json.splits)

lemma resolve_at_path:
  assumes "no_faults s" and "walked (images s) n p" and "node_at n p = Some m"
    and "resolvable (images s) m"
  shows "\<exists>i url t. same_db s t \<and> image_id_of m = Some (JStr i)
     \<and> fst (loadImage (JStr i) t) = Some url
     \<and> node_at (fst (resolveImageUrls n s)) p =
         Some (spread_set m ''attrs'' (spread_opt (get_prop m ''attrs'') ''src'' (JStr url)))"
  using assms
proof (induction p arbitrary: n s)
  case Nil
  then have m: "m = n" by simp
  from Nil.prems(4) have ty: "get_prop m ''type'' = Some (JStr ''image'')"
    by (simp add: resolvable_def)
  from resolve_image_node_resolvable [OF Nil.prems(1) Nil.prems(4)] obtain i url where
    i: "image_id_of m = Some (JStr i)" and l: "fst (loadImage (JStr i) s) = Some url" and
    r: "fst (resolve_image_node m s) =
       Some (spread_set m ''attrs'' (spread_opt (get_prop m ''attrs'') ''src'' (JStr url)))"
    by blast
  from r get_prop_truthy [OF ty] have "fst (resolveImageUrls m s) =
       spread_set m ''attrs'' (spread_opt (get_prop m ''attrs'') ''src'' (JStr url))"
    by (auto simp add: resolveImageUrls.simps split: prod.splits)
  with i l m show ?case
    by (auto intro!: exI [of _ s])
next
  case (Cons j p)
  from Cons.prems(2) obtain cs where nr: "\<not> resolvable (images s) n"
    and cs: "get_prop n ''content'' = Some (JArr cs)" and j: "j < length cs"
    and w: "walked (images s) (cs ! j) p"
    by (auto split: option.splits json.splits)
  from Cons.prems(3) cs j have at: "node_at (cs ! j) p = Some m" by simp
  let ?s1 = "snd (resolve_image_node n s)"
  have s1: "same_db s ?s1" by (rule resolve_image_node_same_db)
  from resolveAll_nth [OF j, of ?s1] obtain t where
    t: "same_db ?s1 t" and nth: "fst (resolveAll cs ?s1) ! j = fst (resolveImageUrls (cs ! j) t)"
    by blast
  from s1 t have st: "same_db s t" by (rule same_db_trans)
  then have im: "images t = images s" by (simp add: same_db_def)
  from st Cons.prems(1) have nf: "no_faults t" by (rule no_faults_same_db)
  from Cons.IH [OF nf, of "cs ! j"] w at Cons.prems(4) im obtain i url u where
    u: "same_db t u" "image_id_of m = Some (JStr i)" "fst (loadImage (JStr i) u) = Some url"
      "node_at (fst (resolveImageUrls (cs ! j) t)) p =
         Some (spread_set m ''attrs'' (spread_opt (get_prop m ''attrs'') ''src'' (JStr url)))"
    by auto
  from st u(1) have su: "same_db s u" by (rule same_db_trans)
  have res: "fst (resolveImageUrls n s) = spread_set n ''content'' (JArr (fst (resolveAll cs ?s1)))"
    using nr cs by (rule resolve_children)
  have "node_at (fst (resolveImageUrls n s)) (j # p) =
          node_at (fst (resolveAll cs ?s1) ! j) p"
    using j by (simp add: res get_prop_spread_set_same [OF cs] resolveAll_length)
  with nth u(4) have "node_at (fst (resolveImageUrls n s)) (j # p) =
         Some (spread_set m ''attrs'' (spread_opt (get_prop m ''attrs'') ''src'' (JStr url)))"
    by simp
  with su u(2,3) show ?case by blast
qed

section \<open>The registry of object URLs along the walk\<close>

lemma digit_value_digit: "d < 10 \<Longrightarrow> digit_value (''0123456789'' ! d) = d"
proof -
  assume "d < 10"
  then have "d \<in> set [0..<10]" by simp
  also have "[0..<10] = [0, 1, 2, 3, 4, 5, 6, 7, 8, 9 :: nat]" by (simp add: upt_rec)
  finally have "d = 0 \<or> d = 1 \<or> d = 2 \<or> d = 3 \<or> d = 4 \<or> d = 5 \<or> d = 6 \<or> d = 7
    \<or> d = 8 \<or> d = 9"
    by simp
  then show ?thesis
    by (elim disjE) (simp_all add: digit_value_def)
qed

lemma digits_value_show_nat: "digits_value (show_nat n) = n"
proof (induction n rule: show_nat.induct)
  case (1 n)
  show ?case
  proof (cases "n < 10")
    case True
    then show ?thesis
      by (simp add: show_nat.simps [of n] digits_value_def digit_value_digit)
  next
    case False
    with 1 have "digits_value (show_nat (n div 10)) = n div 10" by simp
    with False show ?thesis
      by (simp add: show_nat.simps [of n] digits_value_def digit_value_digit)
  qed
qed

lemma show_nat_inj: "show_nat n = show_nat m \<Longrightarrow> n = m"
proof -
  assume "show_nat n = show_nat m"
  then have "digits_value (show_nat n) = digits_value (show_nat m)"
    by (rule arg_cong)
  then show ?thesis
    by (simp only: digits_value_show_nat)
qed

lemma update_fresh: "k \<notin> fst ` set al \<Longrightarrow> AList.update k v al = al @ [(k, v)]"
  by (induction al) auto

lemma urls_wf_fresh:
  assumes "urls_wf s"
  shows "''blob:'' @ show_nat (length (objectURLs s)) \<notin> fst ` set (objectURLs s)"
proof
  assume "''blob:'' @ show_nat (length (objectURLs s)) \<in> fst ` set (objectURLs s)"
  then have "''blob:'' @ show_nat (length (objectURLs s)) \<in> set (map fst (objectURLs s))"
    by simp
  with assms obtain k where "k < length (objectURLs s)"
    "''blob:'' @ show_nat (length (objectURLs s)) = ''blob:'' @ show_nat k"
    unfolding urls_wf_def by auto
  then show False
    using show_nat_inj [of "length (objectURLs s)" k] by simp
qed

lemma createObjectURL_later:
  assumes "urls_wf s"
  shows "later s (snd (createObjectURL b s))"
proof -
  let ?u = "''blob:'' @ show_nat (length (objectURLs s))"
  have upd: "AList.update ?u b (objectURLs s) = objectURLs s @ [(?u, b)]"
    using urls_wf_fresh [OF assms] by (rule update_fresh)
  have eq: "snd (createObjectURL b s) = s\<lparr>objectURLs := objectURLs s @ [(?u, b)]\<rparr>"
    by (simp only: createObjectURL_def Let_def upd snd_conv)
  have "urls_wf (s\<lparr>objectURLs := objectURLs s @ [(?u, b)]\<rparr>)"
    using assms by (simp add: urls_wf_def)
  moreover have "map_of (objectURLs s @ [(?u, b)]) u = Some c"
    if "map_of (objectURLs s) u = Some c" for u c
    using that by simp
  ultimately show ?thesis
    unfolding eq by (simp add: later_def same_db_def)
qed

lemma later_refl: "urls_wf s \<Longrightarrow> later s s"
  by (simp add: later_def)

lemma later_trans: "later s t \<Longrightarrow> later t u \<Longrightarrow> later s u"
  by (simp add: later_def same_db_def)

lemma later_wf: "later s t \<Longrightarrow> urls_wf t"
  by (simp add: later_def)

lemma frame_later: "urls_wf s \<Longrightarrow> frame s t \<Longrightarrow> later s t"
  by (simp add: later_def same_db_def frame_def urls_wf_def)

lemma frame_create_later:
  assumes "urls_wf s" and "frame s t"
  shows "later s (snd (createObjectURL c t))"
proof -
  from assms have "later s t" by (rule frame_later)
  moreover from this have "later t (snd (createObjectURL c t))"
    by (intro createObjectURL_later later_wf)
  ultimately show ?thesis by (rule later_trans)
qed

lemma loadImage_later:
  assumes "urls_wf s"
  shows "later s (snd (loadImage k s))"
  using assms
  by (auto simp add: loadImage_def getDB_def request_def db_get_image_def console_error_def
        split_beta frame_def split: option.splits sum.splits if_splits
        intro: frame_later frame_create_later)

lemma resolve_image_node_later:
  assumes "urls_wf s"
  shows "later s (snd (resolve_image_node n s))"
  using loadImage_later [OF assms] later_refl [OF assms]
  by (auto simp add: resolve_image_node_def split_beta split: option.splits)

lemma resolve_later:
  "urls_wf s \<Longrightarrow> later s (snd (resolveImageUrls c s))"
  "urls_wf s \<Longrightarrow> later s (snd (resolveAll cs s))"
proof (induction c s and cs s rule: resolveImageUrls_resolveAll.induct)
  case (1 content s)
  obtain r s1 where Pair: "resolve_image_node content s = (r, s1)" by force
  have s1: "later s s1"
    using resolve_image_node_later [OF "1.prems", of content] Pair by simp
  show ?case
  proof (cases "truthy content")
    case False
    with "1.prems" show ?thesis by (simp add: resolveImageUrls.simps later_refl)
  next
    case True
    show ?thesis
    proof (cases r)
      case (Some a)
      with True Pair s1 show ?thesis by (simp add: resolveImageUrls.simps)
    next
      case None
      show ?thesis
      proof (cases "get_prop content ''content''")
        case N2: None
        with True Pair None s1 show ?thesis by (simp add: resolveImageUrls.simps)
      next
        case (Some c)
        show ?thesis
        proof (cases c)
          case (JArr children)
          have "later s1 (snd (resolveAll children s1))"
            using "1.IH" [of None s1 c children] True Pair None Some JArr later_wf [OF s1] by simp
          with s1 have "later s (snd (resolveAll children s1))"
            by (rule later_trans)
          with True Pair None Some JArr show ?thesis
            by (auto simp add: resolveImageUrls.simps split: prod.splits)
        qed (use True Pair None Some s1 in \<open>simp_all add: resolveImageUrls.simps\<close>)
      qed
    qed
  qed
next
  case (2 s)
  then show ?case by (simp add: later_refl)
next
  case (3 child rest s)
  obtain r s1 where r: "resolveImageUrls child s = (r, s1)" by force
  obtain rs s2 where rs: "resolveAll rest s1 = (rs, s2)" by force
  have a: "later s s1" using "3.IH"(1) [OF "3.prems"] r by simp
  moreover have "later s1 s2" using "3.IH"(2) [of r s1] r rs later_wf [OF a] by simp
  ultimately show ?case using r rs by (simp add: later_trans)
qed

lemma resolveAll_nth_later:
  "i < length cs \<Longrightarrow> urls_wf s \<Longrightarrow>
   \<exists>t. later s t \<and> fst (resolveAll cs s) ! i = fst (resolveImageUrls (cs ! i) t)
     \<and> later (snd (resolveImageUrls (cs ! i) t)) (snd (resolveAll cs s))"
proof (induction cs arbitrary: s i)
  case Nil
  then show ?case by simp
next
  case (Cons c cs)
  obtain r s1 where r: "resolveImageUrls c s = (r, s1)" by force
  obtain rs s2 where rs: "resolveAll cs s1 = (rs, s2)" by force
  have s1: "later s s1" using resolve_later(1) [OF Cons.prems(2), of c] r by simp
  have s2: "later s1 s2" using resolve_later(2) [OF later_wf [OF s1], of cs] rs by simp
  show ?case
  proof (cases i)
    case 0
    with r rs s2 Cons.prems(2) show ?thesis
      by (auto intro!: exI [of _ s] simp add: later_refl)
  next
    case (Suc j)
    with Cons.prems have "j < length cs" by simp
    from Cons.IH [OF this later_wf [OF s1]] obtain t where
      t: "later s1 t" "fst (resolveAll cs s1) ! j = fst (resolveImageUrls (cs ! j) t)"
        "later (snd (resolveImageUrls (cs ! j) t)) (snd (resolveAll cs s1))"
      by blast
    from s1 t(1) have "later s t" by (rule later_trans)
    with t(2,3) Suc r rs show ?thesis by (auto intro!: exI [of _ t])
  qed
qed

lemma later_same_db: "later s t \<Longrightarrow> same_db s t"
  by (simp add: later_def)

lemma later_reg: "later s t \<Longrightarrow> map_of (objectURLs s) u = Some b \<Longrightarrow> map_of (objectURLs t) u = Some b"
  by (simp add: later_def)

lemma resolve_resolvable:
  assumes "no_faults s" and "resolvable (images s) n"
  shows "\<exists>i r url. image_id_of n = Some (JStr i) \<and> map_of (images s) i = Some r
     \<and> fst (loadImage (JStr i) s) = Some url
     \<and> map_of (objectURLs (snd (resolveImageUrls n s))) url = Some (img_blob r)
     \<and> fst (resolveImageUrls n s) =
         spread_set n ''attrs'' (spread_opt (get_prop n ''attrs'') ''src'' (JStr url))"
proof -
  from assms(2) obtain i r where ty: "get_prop n ''type'' = Some (JStr ''image'')"
    and i: "image_id_of n = Some (JStr i)" and ne: "i \<noteq> []" and r: "map_of (images s) i = Some r"
    by (auto simp add: resolvable_def split: option.splits json.splits)
  let ?url = "''blob:'' @ show_nat (length (objectURLs s))"
  have l: "fst (loadImage (JStr i) s) = Some ?url"
    using assms(1) r by (rule loadImage_stored)
  have g: "map_of (objectURLs (snd (loadImage (JStr i) s))) ?url = Some (img_blob r)"
    using assms(1) r by (simp add: storage_defs no_faults_def Let_def update_conv')
  have t: "truthy n" using ty by (rule get_prop_truthy)
  obtain a b where lb: "loadImage (JStr i) s = (a, b)" by force
  with l g have ab: "a = Some ?url" "map_of (objectURLs b) ?url = Some (img_blob r)" by simp_all
  have "resolveImageUrls n s =
      (spread_set n ''attrs'' (spread_opt (get_prop n ''attrs'') ''src'' (JStr ?url)), b)"
    using ty i ne t lb ab(1) by (simp add: resolveImageUrls.simps resolve_image_node_def)
  with i r l ab(2) show ?thesis by auto
qed

lemma resolve_at_path_final:
  assumes "no_faults s" and "urls_wf s" and "walked (images s) n p" and "node_at n p = Some m"
    and "resolvable (images s) m"
  shows "\<exists>i r url. image_id_of m = Some (JStr i) \<and> map_of (images s) i = Some r
     \<and> (\<exists>t. same_db s t \<and> fst (loadImage (JStr i) t) = Some url)
     \<and> map_of (objectURLs (snd (resolveImageUrls n s))) url = Some (img_blob r)
     \<and> node_at (fst (resolveImageUrls n s)) p =
         Some (spread_set m ''attrs'' (spread_opt (get_prop m ''attrs'') ''src'' (JStr url)))"
  using assms
proof (induction p arbitrary: n s)
  case Nil
  then have m: "m = n" by simp
  from resolve_resolvable [OF Nil.prems(1)] Nil.prems(5) m show ?case
    by (fastforce intro: same_db_refl)
next
  case (Cons j p)
  from Cons.prems(3) obtain cs where nr: "\<not> resolvable (images s) n"
    and cs: "get_prop n ''content'' = Some (JArr cs)" and j: "j < length cs"
    and w: "walked (images s) (cs ! j) p"
    by (auto split: option.splits json.splits)
  from Cons.prems(4) cs j have at: "node_at (cs ! j) p = Some m" by simp
  let ?s1 = "snd (resolve_image_node n s)"
  have s1: "later s ?s1" using Cons.prems(2) by (rule resolve_image_node_later)
  from resolveAll_nth_later [OF j later_wf [OF s1]] obtain t where
    t: "later ?s1 t" and nth: "fst (resolveAll cs ?s1) ! j = fst (resolveImageUrls (cs ! j) t)"
    and fin: "later (snd (resolveImageUrls (cs ! j) t)) (snd (resolveAll cs ?s1))"
    by blast
  from s1 t have st: "later s t" by (rule later_trans)
  then have sdb: "same_db s t" by (rule later_same_db)
  then have im: "images t = images s" by (simp add: same_db_def)
  from sdb Cons.prems(1) have nf: "no_faults t" by (rule no_faults_same_db)
  from Cons.IH [OF nf later_wf [OF st], of "cs ! j"] w at Cons.prems(5) im obtain i r url u where
    u: "image_id_of m = Some (JStr i)" "map_of (images s) i = Some r"
      "same_db t u" "fst (loadImage (JStr i) u) = Some url"
      "map_of (objectURLs (snd (resolveImageUrls (cs ! j) t))) url = Some (img_blob r)"
      "node_at (fst (resolveImageUrls (cs ! j) t)) p =
         Some (spread_set m ''attrs'' (spread_opt (get_prop m ''attrs'') ''src'' (JStr url)))"
    by auto
  from sdb u(3) have su: "same_db s u" by (rule same_db_trans)
  have res: "fst (resolveImageUrls n s) = spread_set n ''content'' (JArr (fst (resolveAll cs ?s1)))"
    using nr cs by (rule resolve_children)
  have snd_res: "snd (resolveImageUrls n s) = snd (resolveAll cs ?s1)"
    using resolve_image_node_not_resolvable [OF nr] get_prop_truthy [OF cs] cs
    by (auto simp add: resolveImageUrls.simps split: prod.splits)
  have reg: "map_of (objectURLs (snd (resolveImageUrls n s))) url = Some (img_blob r)"
    unfolding snd_res using fin u(5) by (rule later_reg)
  have "node_at (fst (resolveImageUrls n s)) (j # p) =
          node_at (fst (resolveAll cs ?s1) ! j) p"
    using j by (simp add: res get_prop_spread_set_same [OF cs] resolveAll_length)
  with nth u(6) have "node_at (fst (resolveImageUrls n s)) (j # p) =
         Some (spread_set m ''attrs'' (spread_opt (get_prop m ''attrs'') ''src'' (JStr url)))"
    by simp
  with su u(1,2,4) reg show ?case by blast
qed

lemma resolve_at_path_other:
  assumes "walked (images s) n p" and "node_at n p = Some m" and "\<not> resolvable (images s) m"
  shows "\<exists>m'. node_at (fst (resolveImageUrls n s)) p = Some m'
     \<and> (\<forall>k. k \<noteq> ''content'' \<longrightarrow> get_prop m' k = get_prop m k)
     \<and> (\<forall>cs. get_prop m ''content'' = Some (JArr cs) \<longrightarrow>
           (\<exists>rs. get_prop m' ''content'' = Some (JArr rs) \<and> length rs = length cs))
     \<and> ((\<forall>cs. get_prop m ''content'' \<noteq> Some (JArr cs)) \<longrightarrow> m' = m)"
  using assms
proof (induction p arbitrary: n s)
  case Nil
  then have m: "m = n" by simp
  show ?case
  proof (cases "\<exists>cs. get_prop n ''content'' = Some (JArr cs)")
    case True
    then obtain cs where cs: "get_prop n ''content'' = Some (JArr cs)" by blast
    from Nil.prems(3) m have nr: "\<not> resolvable (images s) n" by simp
    show ?thesis
      using cs
      by (simp add: m resolve_children [OF nr cs] get_prop_spread_set_other [OF cs]
            get_prop_spread_set_same [OF cs] resolveAll_length)
  next
    case False
    with Nil.prems(3) m show ?thesis
      by (simp add: resolve_leaf)
  qed
next
  case (Cons j p)
  from Cons.prems(1) obtain cs where nr: "\<not> resolvable (images s) n"
    and cs: "get_prop n ''content'' = Some (JArr cs)" and j: "j < length cs"
    and w: "walked (images s) (cs ! j) p"
    by (auto split: option.splits json.splits)
  from Cons.prems(2) cs j have at: "node_at (cs ! j) p = Some m" by simp
  let ?s1 = "snd (resolve_image_node n s)"
  have s1: "same_db s ?s1" by (rule resolve_image_node_same_db)
  from resolveAll_nth [OF j, of ?s1] obtain t where
    t: "same_db ?s1 t" and nth: "fst (resolveAll cs ?s1) ! j = fst (resolveImageUrls (cs ! j) t)"
    by blast
  from s1 t have "same_db s t" by (rule same_db_trans)
  then have im: "images t = images s" by (simp add: same_db_def)
  have res: "fst (resolveImageUrls n s) = spread_set n ''content'' (JArr (fst (resolveAll cs ?s1)))"
    using nr cs by (rule resolve_children)
  have "node_at (fst (resolveImageUrls n s)) (j # p) =
          node_at (fst (resolveImageUrls (cs ! j) t)) p"
    using j nth by (simp add: res get_prop_spread_set_same [OF cs] resolveAll_length)
  with Cons.IH [of t "cs ! j"] w at Cons.prems(3) im show ?case
    by simp
qed

lemma nodes_of_self: "n \<in> set (nodes_of n)"
  by (subst nodes_of.simps) simp

lemma nodes_of_child:
  "get_prop n ''content'' = Some (JArr cs) \<Longrightarrow> c \<in> set cs \<Longrightarrow> set (nodes_of c) \<subseteq> set (nodes_of n)"
  by (subst (2) nodes_of.simps) auto

lemma image_leaves_child:
  assumes "image_leaves n" and "get_prop n ''content'' = Some (JArr cs)" and "c \<in> set cs"
  shows "image_leaves c"
  using assms(1) nodes_of_child [OF assms(2,3)]
  by (auto simp add: image_leaves_def list_all_iff)

lemma image_leaves_not_resolvable:
  assumes "image_leaves n" and "get_prop n ''content'' = Some (JArr cs)"
  shows "\<not> resolvable imgs n"
  using assms nodes_of_self [of n]
  by (auto simp add: image_leaves_def list_all_iff resolvable_def)

lemma image_leaves_walked:
  "image_leaves n \<Longrightarrow> node_at n p = Some m \<Longrightarrow> walked imgs n p \<and> image_leaves m"
proof (induction p arbitrary: n)
  case Nil
  then show ?case by simp
next
  case (Cons j p)
  from Cons.prems(2) obtain cs where cs: "get_prop n ''content'' = Some (JArr cs)"
    and j: "j < length cs" and at: "node_at (cs ! j) p = Some m"
    by (auto split: option.splits json.splits if_splits)
  from j have "cs ! j \<in> set cs" by simp
  with Cons.prems(1) cs have "image_leaves (cs ! j)" by (rule image_leaves_child)
  from Cons.IH [OF this at] image_leaves_not_resolvable [OF Cons.prems(1) cs] cs j
  show ?case by simp
qed

section \<open>Lemmas on the paste handler\<close>

lemma saveImage_ok:
  assumes "saveImage b s = (Inr i, s1)"
  shows "map_option img_blob (map_of (images s1) i) = Some b \<and> i \<noteq> []"
  using assms
  by (auto simp add: storage_defs Let_def update_conv' split: if_splits option.splits)

lemma loadImage_ok:
  assumes "loadImage (JStr i) s = (Some u, s1)"
  shows "map_option img_blob (map_of (images s) i) = map_of (objectURLs s1) u
     \<and> map_of (objectURLs s1) u \<noteq> None \<and> take 5 u = ''blob:'' \<and> images s1 = images s"
  using assms
  by (auto simp add: storage_defs Let_def update_conv' split: if_splits option.splits)

lemma handleImagePaste_items_ok:
  "handleImagePaste_items its s = (Some (i, u), s1) \<Longrightarrow>
   i \<noteq> [] \<and> take 5 u = ''blob:'' \<and>
   (\<exists>b. map_option img_blob (map_of (images s1) i) = Some b \<and> map_of (objectURLs s1) u = Some b
        \<and> Some b \<in> getAsFile ` set its)"
proof (induction its arbitrary: s)
  case Nil
  then show ?case by simp
next
  case (Cons item rest)
  let ?goal = "i \<noteq> [] \<and> take 5 u = ''blob:'' \<and>
   (\<exists>b. map_option img_blob (map_of (images s1) i) = Some b \<and> map_of (objectURLs s1) u = Some b
        \<and> Some b \<in> getAsFile ` set (item # rest))"
  have later: ?goal if "handleImagePaste_items rest t = (Some (i, u), s1)" for t
    using Cons.IH [OF that] by auto
  show ?case
  proof (cases "has_substring (item_type item) ''image''")
    case False
    with Cons.prems later show ?thesis by simp
  next
    case True
    show ?thesis
    proof (cases "getAsFile item")
      case None
      with Cons.prems True later show ?thesis by simp
    next
      case (Some b)
      obtain r t1 where sv: "saveImage b s = (r, t1)" by force
      show ?thesis
      proof (cases r)
        case (Inl e)
        with Cons.prems True Some sv later show ?thesis by simp
      next
        case (Inr j)
        obtain l t2 where ld: "loadImage (JStr j) t1 = (l, t2)" by force
        show ?thesis
        proof (cases "\<exists>v. l = Some v \<and> v \<noteq> []")
          case False
          with Cons.prems True Some sv Inr ld later show ?thesis by (cases l) simp_all
        next
          case T: True
          then obtain v where v: "l = Some v" "v \<noteq> []" by blast
          with Cons.prems True Some sv Inr ld have eq: "i = j" "u = v" "s1 = t2"
            by simp_all
          from saveImage_ok sv Inr have a: "map_option img_blob (map_of (images t1) j) = Some b" "j \<noteq> []"
            by simp_all
          from loadImage_ok [of j t1 v t2] ld v
          have b: "map_option img_blob (map_of (images t1) j) = map_of (objectURLs t2) v"
            "take 5 v = ''blob:''" "images t2 = images t1"
            by simp_all
          from a(1) b(1) have "map_of (objectURLs t2) v = Some b"
            by simp
          with a b eq Some show ?thesis by force
        qed
      qed
    qed
  qed
qed

section \<open>Lemmas on the autosave hook\<close>

lemmas hook_defs =
  clearTimers_def clearTimeout_def clearInterval_def setTimeout_def setInterval_def setStatus_def
  save_start_def save_fulfilled_def save_rejected_def triggerAutosave_def countdown_callback_def
  handleBeforeUnload_def

lemma clearTimers_timers:
  "timers (clearTimers s) =
     filter (\<lambda>(i, t). timeoutRef s \<noteq> Some i \<and> countdownIntervalRef s \<noteq> Some i) (timers s)"
  by (cases "timeoutRef s"; cases "countdownIntervalRef s")
     (auto simp add: hook_defs AList.delete_eq intro!: filter_cong)

lemma clearTimers_empty: "timers_referenced s \<Longrightarrow> timers (clearTimers s) = []"
  by (auto simp add: clearTimers_timers timers_referenced_def filter_empty_conv)

lemma clearTimers_refs [simp]:
  "timeoutRef (clearTimers s) = None" "countdownIntervalRef (clearTimers s) = None"
  by (simp_all add: hook_defs Let_def split: option.splits)

lemma clearTimers_frame [simp]:
  "statusState (clearTimers s) = statusState s" "pendingChangesRef (clearTimers s) = pendingChangesRef s"
  "now (clearTimers s) = now s" "onSaveCalls (clearTimers s) = onSaveCalls s"
  "awaiting (clearTimers s) = awaiting s" "errorLog (clearTimers s) = errorLog s"
  "nextTimer (clearTimers s) = nextTimer s"
  by (simp_all add: hook_defs Let_def split: option.splits)

lemma triggerAutosave_result:
  assumes "timers_referenced s"
  shows "timers (triggerAutosave delay s) =
           [(nextTimer s, Interval (now s + 1000) (ceil_seconds delay)),
            (Suc (nextTimer s), Timeout (now s + delay))]"
    and "timeoutRef (triggerAutosave delay s) = Some (Suc (nextTimer s))"
    and "countdownIntervalRef (triggerAutosave delay s) = Some (nextTimer s)"
    and "statusState (triggerAutosave delay s) =
           (statusState s)\<lparr>status := Typing, countdown := ceil_seconds delay\<rparr>"
    and "pendingChangesRef (triggerAutosave delay s)"
    and "now (triggerAutosave delay s) = now s"
    and "onSaveCalls (triggerAutosave delay s) = onSaveCalls s"
    and "awaiting (triggerAutosave delay s) = awaiting s"
    and "errorLog (triggerAutosave delay s) = errorLog s"
  using clearTimers_empty [OF assms]
  by (simp_all add: triggerAutosave_def setInterval_def setTimeout_def setStatus_def Let_def)

lemma timers_referenced_empty: "timers s = [] \<Longrightarrow> timers_referenced s"
  by (simp add: timers_referenced_def)

lemma timers_referenced_clearTimers: "timers_referenced s \<Longrightarrow> timers_referenced (clearTimers s)"
  by (simp add: timers_referenced_empty clearTimers_empty)

lemma timers_referenced_save_start: "timers_referenced s \<Longrightarrow> timers_referenced (save_start s)"
  using clearTimers_empty [of s]
  by (simp add: save_start_def setStatus_def Let_def timers_referenced_def)

lemma timers_referenced_fire: "timers_referenced s \<Longrightarrow> timers_referenced (fire i s)"
proof (cases "map_of (timers s) i")
  case None
  then show "timers_referenced s \<Longrightarrow> ?thesis" by (simp add: fire_def)
next
  case (Some t)
  assume inv: "timers_referenced s"
  show ?thesis
  proof (cases t)
    case (Timeout due)
    have "timers_referenced (s\<lparr>timers := AList.delete i (timers s)\<rparr>)"
      using inv by (auto simp add: timers_referenced_def AList.delete_eq)
    then show ?thesis
      using Some Timeout by (simp add: fire_def timers_referenced_save_start)
  next
    case (Interval due r)
    have "fst ` set (AList.update i (Interval (due + 1000) (r - 1)) (timers s)) = fst ` set (timers s)"
      using Some by (auto simp add: dom_update dest: map_of_SomeD intro: rev_image_eqI)
    have keys: "fst ` set (AList.update i (Interval (due + 1000) (r - 1)) (timers s))
        = fst ` set (timers s)"
      by fact
    have "timeoutRef s = Some j \<or> countdownIntervalRef s = Some j"
      if "(j, u) \<in> set (AList.update i (Interval (due + 1000) (r - 1)) (timers s))" for j u
    proof -
      from that have "j \<in> fst ` set (AList.update i (Interval (due + 1000) (r - 1)) (timers s))"
        by force
      with keys obtain u' where "(j, u') \<in> set (timers s)" by auto
      with inv show ?thesis by (auto simp add: timers_referenced_def)
    qed
    then have "\<forall>(j, u) \<in> set (AList.update i (Interval (due + 1000) (r - 1)) (timers s)).
        timeoutRef s = Some j \<or> countdownIntervalRef s = Some j"
      by auto
    then show ?thesis
      using Some Interval
      by (auto simp add: fire_def countdown_callback_def setStatus_def clearInterval_def Let_def
            timers_referenced_def AList.delete_eq split: option.splits)
  qed
qed

lemma timers_referenced_fold_fire:
  "timers_referenced s \<Longrightarrow> timers_referenced (fold fire ids s)"
  by (induction ids arbitrary: s) (simp_all add: timers_referenced_fire)

lemma timers_referenced_tick: "timers_referenced s \<Longrightarrow> timers_referenced (tick s)"
proof -
  assume "timers_referenced s"
  then have "timers_referenced (s\<lparr>now := Suc (now s)\<rparr>)"
    by (simp add: timers_referenced_def)
  then show ?thesis
    by (simp add: tick_def Let_def timers_referenced_fold_fire)
qed

lemma timers_referenced_trigger:
  "timers_referenced s \<Longrightarrow> timers_referenced (triggerAutosave delay s)"
  by (simp add: timers_referenced_def [of "triggerAutosave delay s"] triggerAutosave_result)

lemma timers_referenced_step: "timers_referenced s \<Longrightarrow> timers_referenced (step delay ev s)"
  by (cases ev)
     (simp_all add: timers_referenced_trigger timers_referenced_tick timers_referenced_save_start
        timers_referenced_clearTimers,
      simp_all add: timers_referenced_def save_fulfilled_def save_rejected_def setStatus_def
        handleBeforeUnload_def Let_def)

lemma timers_referenced_run: "timers_referenced s \<Longrightarrow> timers_referenced (run delay es s)"
  unfolding run_def by (induction es arbitrary: s) (simp_all add: timers_referenced_step)

lemma timers_referenced_initial: "timers_referenced initial_hook"
  by (simp add: timers_referenced_def initial_hook_def)


lemma pending_trigger:
  "timers_referenced s \<Longrightarrow>
   pending (triggerAutosave delay s) (Suc (nextTimer s)) (now s + delay)"
  by (simp add: pending_def triggerAutosave_result)

lemmas tick_defs = tick_def fire_def hook_defs Let_def pending_def

lemma tick_pending:
  assumes "pending s tid dl" and "Suc (now s) < dl"
  shows "pending (tick s) tid dl \<and> now (tick s) = Suc (now s)
     \<and> onSaveCalls (tick s) = onSaveCalls s \<and> pendingChangesRef (tick s) = pendingChangesRef s
     \<and> awaiting (tick s) = awaiting s \<and> errorLog (tick s) = errorLog s
     \<and> status (statusState (tick s)) = status (statusState s)
     \<and> lastSaved (statusState (tick s)) = lastSaved (statusState s)"
  using assms unfolding pending_def
  by (elim conjE disjE exE) (simp_all add: tick_defs split: option.splits)

lemma tick_fires:
  assumes "pending s tid dl" and "Suc (now s) = dl"
  shows "timers (tick s) = [] \<and> now (tick s) = dl
     \<and> onSaveCalls (tick s) = dl # onSaveCalls s \<and> pendingChangesRef (tick s) = pendingChangesRef s
     \<and> awaiting (tick s) = Suc (awaiting s) \<and> errorLog (tick s) = errorLog s
     \<and> statusState (tick s) = (statusState s)\<lparr>status := Saving, countdown := 0\<rparr>"
  using assms unfolding pending_def
  by (elim conjE disjE exE) (simp_all add: tick_defs split: option.splits)

lemma run_Nil: "run delay [] s = s"
  by (simp add: run_def)

lemma run_Cons: "run delay (ev # es) s = run delay es (step delay ev s)"
  by (simp add: run_def)

lemma run_ticks: "run delay (replicate j Tick) s = (tick ^^ j) s"
  by (induction j arbitrary: s) (simp_all add: run_def funpow_swap1)

lemma ticks_pending:
  assumes "pending s tid dl" and "now s + j < dl"
  shows "pending ((tick ^^ j) s) tid dl \<and> now ((tick ^^ j) s) = now s + j
     \<and> onSaveCalls ((tick ^^ j) s) = onSaveCalls s
     \<and> pendingChangesRef ((tick ^^ j) s) = pendingChangesRef s
     \<and> awaiting ((tick ^^ j) s) = awaiting s \<and> errorLog ((tick ^^ j) s) = errorLog s
     \<and> status (statusState ((tick ^^ j) s)) = status (statusState s)
     \<and> lastSaved (statusState ((tick ^^ j) s)) = lastSaved (statusState s)"
  using assms(2)
proof (induction j)
  case 0
  with assms(1) show ?case by simp
next
  case (Suc j)
  then have ih: "pending ((tick ^^ j) s) tid dl" "now ((tick ^^ j) s) = now s + j"
    "onSaveCalls ((tick ^^ j) s) = onSaveCalls s"
    "pendingChangesRef ((tick ^^ j) s) = pendingChangesRef s"
    "awaiting ((tick ^^ j) s) = awaiting s" "errorLog ((tick ^^ j) s) = errorLog s"
    "status (statusState ((tick ^^ j) s)) = status (statusState s)"
    "lastSaved (statusState ((tick ^^ j) s)) = lastSaved (statusState s)"
    by simp_all
  from Suc.prems ih(2) have "Suc (now ((tick ^^ j) s)) < dl" by simp
  from tick_pending [OF ih(1) this] ih show ?case by simp
qed

lemma ticks_fire:
  assumes "pending s tid dl" and "now s + Suc j = dl"
  shows "timers ((tick ^^ Suc j) s) = [] \<and> now ((tick ^^ Suc j) s) = dl
     \<and> onSaveCalls ((tick ^^ Suc j) s) = dl # onSaveCalls s
     \<and> pendingChangesRef ((tick ^^ Suc j) s) = pendingChangesRef s
     \<and> awaiting ((tick ^^ Suc j) s) = Suc (awaiting s)
     \<and> errorLog ((tick ^^ Suc j) s) = errorLog s
     \<and> status (statusState ((tick ^^ Suc j) s)) = Saving
     \<and> countdown (statusState ((tick ^^ Suc j) s)) = 0
     \<and> lastSaved (statusState ((tick ^^ Suc j) s)) = lastSaved (statusState s)"
proof -
  from assms(2) have "now s + j < dl" by simp
  from ticks_pending [OF assms(1) this]
  have p: "pending ((tick ^^ j) s) tid dl" "now ((tick ^^ j) s) = now s + j"
    "onSaveCalls ((tick ^^ j) s) = onSaveCalls s"
    "pendingChangesRef ((tick ^^ j) s) = pendingChangesRef s"
    "awaiting ((tick ^^ j) s) = awaiting s" "errorLog ((tick ^^ j) s) = errorLog s"
    "lastSaved (statusState ((tick ^^ j) s)) = lastSaved (statusState s)"
    by simp_all
  from assms(2) p(2) have "Suc (now ((tick ^^ j) s)) = dl" by simp
  from tick_fires [OF p(1) this] p show ?thesis by simp
qed

lemma tick_idle: "timers s = [] \<Longrightarrow> tick s = s\<lparr>now := Suc (now s)\<rparr>"
  by (simp add: tick_def Let_def)

lemma ticks_idle:
  "timers s = [] \<Longrightarrow> timers ((tick ^^ j) s) = [] \<and> onSaveCalls ((tick ^^ j) s) = onSaveCalls s"
  by (induction j) (simp_all add: tick_idle)

lemma pending_saves_trigger:
  "timers_referenced s \<Longrightarrow> pending_saves (triggerAutosave delay s) = [now s + delay]"
  by (simp add: pending_saves_def triggerAutosave_result)

text \<open>
  The effect's cleanup calls \<^verbatim>\<open>clearTimers\<close>. It runs when the component unmounts and
  whenever \<^verbatim>\<open>onSave\<close> is another function than at the render before (the effect depends on
  \<^verbatim>\<open>[onSave]\<close>, and the page passes a new function at every render). A cleanup after an
  edit cancels the pending save: nothing is scheduled, and no time that passes brings a
  call of \<^verbatim>\<open>onSave\<close>.
\<close>

lemma cleanup_cancels_pending_save:
  assumes "timers_referenced s"
  shows "pending_saves (clearTimers (triggerAutosave delay s)) = []
     \<and> (\<forall>j. onSaveCalls ((tick ^^ j) (clearTimers (triggerAutosave delay s))) = onSaveCalls s)"
proof -
  have "timers (clearTimers (triggerAutosave delay s)) = []"
    using assms by (intro clearTimers_empty timers_referenced_trigger)
  then show ?thesis
    using assms by (simp add: pending_saves_def ticks_idle triggerAutosave_result)
qed

lemma status_fire:
  "status (statusState (fire i s)) = status (statusState s) \<or> status (statusState (fire i s)) = Saving"
  by (simp add: fire_def hook_defs Let_def split: option.splits timer.splits)

lemma status_fold_fire:
  "status (statusState (fold fire ids s)) = status (statusState s)
   \<or> status (statusState (fold fire ids s)) = Saving"
proof (induction ids arbitrary: s)
  case Nil
  then show ?case by simp
next
  case (Cons i ids)
  from Cons.IH [of "fire i s"] status_fire [of i s] show ?case by auto
qed

lemma status_tick:
  "status (statusState (tick s)) = status (statusState s) \<or> status (statusState (tick s)) = Saving"
  using status_fold_fire [of _ "s\<lparr>now := Suc (now s)\<rparr>"] by (simp add: tick_def Let_def)

lemma status_step:
  "status (statusState (step delay ev u)) = status (statusState u)
   \<or> ev = Edit \<and> status (statusState (step delay ev u)) = Typing
   \<or> (ev = Tick \<or> ev = CallSave) \<and> status (statusState (step delay ev u)) = Saving
   \<or> ev = Fulfilled \<and> status (statusState (step delay ev u)) = Saved
   \<or> (\<exists>e. ev = Rejected e) \<and> status (statusState (step delay ev u)) = Idle"
proof (cases ev)
  case Tick
  with status_tick [of u] show ?thesis by auto
qed (simp_all add: hook_defs Let_def split: option.splits prod.splits)

lemmas walk_eval =
  resolveImageUrls.simps resolve_image_node_def image_id_of_def opt_chain_def spread_opt_def
  loadImage_def getDB_def request_def db_get_image_def createObjectURL_def show_nat.simps
  console_error_def fresh_browser_def image_browser_def image_node_def orphan_doc_def
  image_doc_def png_def resolvable_def Let_def

section \<open>The document under its one key\<close>

text \<open>
  What \<^verbatim>\<open>loadDocument\<close> returns after \<^verbatim>\<open>saveDocument\<close> of any JSON value, when no database
  request fails.
\<close>

lemma saveDocument_then_loadDocument:
  assumes "no_faults s"
  shows "\<exists>s1. saveDocument d s = (Inr (), s1)
     \<and> map_of (documents s1) DOCUMENT_ID
         = Some \<lparr>doc_id = DOCUMENT_ID, doc_content = d, updatedAt = clock s (clock_reads s)\<rparr>
     \<and> (\<forall>k. k \<noteq> DOCUMENT_ID \<longrightarrow> map_of (documents s1) k = map_of (documents s) k)
     \<and> images s1 = images s
     \<and> fst (loadDocument s1) = (if truthy d then d else JNull)"
  using assms by (simp add: storage_defs no_faults_def update_conv')

text \<open>
  Claim C3: a document JSON is the editor's tree, a JSON object. When no database request
  fails, \<^verbatim>\<open>saveDocument\<close> of it succeeds and writes it under the single key
  \<^verbatim>\<open>main-document\<close>, leaving every other key of the documents store and the images store
  as they were, and the \<^verbatim>\<open>loadDocument\<close> that follows returns exactly the document.
\<close>

theorem saveDocument_loadDocument_roundtrip:
  assumes "no_faults s"
  shows "\<exists>s1. saveDocument (JObj kvs) s = (Inr (), s1)
     \<and> map_of (documents s1) DOCUMENT_ID
         = Some \<lparr>doc_id = DOCUMENT_ID, doc_content = JObj kvs,
                 updatedAt = clock s (clock_reads s)\<rparr>
     \<and> (\<forall>k. k \<noteq> DOCUMENT_ID \<longrightarrow> map_of (documents s1) k = map_of (documents s) k)
     \<and> images s1 = images s
     \<and> fst (loadDocument s1) = JObj kvs"
  using saveDocument_then_loadDocument [OF assms, of "JObj kvs"] by simp

theorem saveDocument_loadDocument_roundtrip_witness:
  "no_faults fresh_browser \<and>
   fst (saveDocument welcome_doc fresh_browser) = Inr () \<and>
   map_of (documents (snd (saveDocument welcome_doc fresh_browser))) ''draft'' = None \<and>
   fst (loadDocument (snd (saveDocument welcome_doc fresh_browser))) = welcome_doc"
proof -
  have nf: "no_faults fresh_browser"
    by (simp add: no_faults_def fresh_browser_def)
  have d: "map_of (documents fresh_browser) ''draft'' = None" "''draft'' \<noteq> DOCUMENT_ID"
    by (simp_all add: fresh_browser_def DOCUMENT_ID_def)
  from saveDocument_loadDocument_roundtrip [OF nf,
      of "[(''type'', JStr ''doc''),
           (''content'', JArr [JObj [(''type'', JStr ''paragraph''),
                                     (''content'', JArr [JObj [(''type'', JStr ''text''),
                                                               (''text'', JStr ''Welcome to Notes'')]])]])]"]
  obtain s1 where "saveDocument welcome_doc fresh_browser = (Inr (), s1)"
    "\<forall>k. k \<noteq> DOCUMENT_ID \<longrightarrow> map_of (documents s1) k = map_of (documents fresh_browser) k"
    "fst (loadDocument s1) = welcome_doc"
    unfolding welcome_doc_def by blast
  with nf d show ?thesis by simp
qed

text \<open>
  Claim C9: when the requests of \<^verbatim>\<open>loadDocument\<close> succeed, it returns null if there is no
  record under the fixed key, and also if the record's content is falsy, which is the case
  exactly for null, the empty string, \<^verbatim>\<open>0\<close> and \<^verbatim>\<open>false\<close>; in every other case it returns
  the content. So the result for a saved falsy document is the result for no document.
\<close>

theorem loadDocument_falsy_is_null:
  assumes "faults s (requests s) = None" and "faults s (Suc (requests s)) = None"
  shows "(map_of (documents s) DOCUMENT_ID = None \<longrightarrow> fst (loadDocument s) = JNull)
     \<and> (\<forall>r. map_of (documents s) DOCUMENT_ID = Some r \<longrightarrow>
           fst (loadDocument s) = (if truthy (doc_content r) then doc_content r else JNull))
     \<and> (\<forall>j. \<not> truthy j \<longleftrightarrow> j = JNull \<or> j = JStr [] \<or> j = JNum 0 \<or> j = JBool False)"
  using assms falsy_values by (auto simp add: storage_defs)

theorem loadDocument_falsy_is_null_witness:
  "fst (loadDocument fresh_browser) = JNull \<and>
   fst (loadDocument (fresh_browser\<lparr>documents :=
          [(DOCUMENT_ID, \<lparr>doc_id = DOCUMENT_ID, doc_content = JBool False, updatedAt = 7\<rparr>)]\<rparr>)) = JNull"
  using loadDocument_falsy_is_null [of fresh_browser]
    loadDocument_falsy_is_null [of "fresh_browser\<lparr>documents :=
          [(DOCUMENT_ID, \<lparr>doc_id = DOCUMENT_ID, doc_content = JBool False, updatedAt = 7\<rparr>)]\<rparr>"]
  by (simp add: fresh_browser_def)

section \<open>The error surface of the storage layer\<close>

text \<open>
  Claim C10: when the storage fails with an error \<open>e\<close>, the read operations \<^verbatim>\<open>loadDocument\<close>,
  \<^verbatim>\<open>loadImage\<close> and \<^verbatim>\<open>getAllImages\<close> log it and return their fallback (null, null, the
  empty list), while the write operations \<^verbatim>\<open>saveDocument\<close>, \<^verbatim>\<open>saveImage\<close> and
  \<^verbatim>\<open>deleteImage\<close> log it and throw \<open>e\<close> to the caller.
\<close>

theorem storage_error_surface:
  assumes "storage_fails s e"
  shows "fst (loadDocument s) = JNull
     \<and> console (snd (loadDocument s)) = console s @ [(''Failed to load document:'', e)]
     \<and> fst (loadImage (JStr i) s) = None
     \<and> console (snd (loadImage (JStr i) s)) = console s @ [(''Failed to load image:'', e)]
     \<and> fst (getAllImages s) = []
     \<and> console (snd (getAllImages s)) = console s @ [(''Failed to get all images:'', e)]
     \<and> fst (saveDocument d s) = Inl e
     \<and> console (snd (saveDocument d s)) = console s @ [(''Failed to save document:'', e)]
     \<and> fst (saveImage b s) = Inl e
     \<and> console (snd (saveImage b s)) = console s @ [(''Failed to save image:'', e)]
     \<and> fst (deleteImage i s) = Inl e
     \<and> console (snd (deleteImage i s)) = console s @ [(''Failed to delete image:'', e)]"
  using assms
  by (intro conjI)
     (simp_all add: fails_loadDocument fails_loadImage fails_getAllImages fails_saveDocument
        fails_saveImage fails_deleteImage)

theorem storage_error_surface_witness:
  "storage_fails quota_browser (Error ''QuotaExceededError'') \<and>
   fst (loadDocument quota_browser) = JNull \<and>
   fst (getAllImages quota_browser) = [] \<and>
   fst (saveDocument welcome_doc quota_browser) = Inl (Error ''QuotaExceededError'') \<and>
   console (snd (saveDocument welcome_doc quota_browser))
     = [(''Failed to save document:'', Error ''QuotaExceededError'')]"
proof -
  have f: "storage_fails quota_browser (Error ''QuotaExceededError'')"
    by (simp add: storage_fails_def quota_browser_def fresh_browser_def)
  have c: "console quota_browser = []"
    by (simp add: quota_browser_def fresh_browser_def)
  show ?thesis
    using f c storage_error_surface [OF f, of "''x''" welcome_doc "Blob ''image/png'' []"] by simp
qed

section \<open>Image records\<close>

text \<open>
  Claim C6: when no database request fails, \<^verbatim>\<open>saveImage b\<close> returns an identifier of the
  form \<^verbatim>\<open>img-<timestamp>-<random>\<close>, the timestamp being the first \<^verbatim>\<open>Date.now()\<close>; under it
  the images store then holds the record of that identifier, the blob \<open>b\<close> and, as creation
  time, the second \<^verbatim>\<open>Date.now()\<close>; the documents store is untouched; and \<^verbatim>\<open>loadImage\<close> of the
  identifier returns a non-empty URL that the browser has registered for \<open>b\<close>.
\<close>

theorem saveImage_record_and_roundtrip:
  assumes "no_faults s"
  shows "\<exists>i s1 url s2.
       saveImage b s = (Inr i, s1)
     \<and> i = ''img-'' @ show_nat (clock s (clock_reads s)) @ ''-''
             @ take 9 (drop 2 (randoms s (random_calls s)))
     \<and> map_of (images s1) i
         = Some \<lparr>img_id = i, img_blob = b, createdAt = clock s (Suc (clock_reads s))\<rparr>
     \<and> documents s1 = documents s
     \<and> loadImage (JStr i) s1 = (Some url, s2)
     \<and> url \<noteq> []
     \<and> map_of (objectURLs s2) url = Some b"
  using assms by (simp add: storage_defs no_faults_def update_conv' Let_def)

theorem saveImage_record_and_roundtrip_witness:
  "no_faults fresh_browser \<and>
   fst (saveImage png fresh_browser) = Inr ''img-1700000000000-k3j9x2m1q'' \<and>
   map_of (images (snd (saveImage png fresh_browser))) ''img-1700000000000-k3j9x2m1q''
     = Some \<lparr>img_id = ''img-1700000000000-k3j9x2m1q'', img_blob = png,
             createdAt = 1700000000001\<rparr> \<and>
   (\<exists>url s2. loadImage (JStr ''img-1700000000000-k3j9x2m1q'') (snd (saveImage png fresh_browser))
                 = (Some url, s2) \<and> map_of (objectURLs s2) url = Some png)"
proof -
  have nf: "no_faults fresh_browser"
    by (simp add: no_faults_def fresh_browser_def)
  have i: "fst (saveImage png fresh_browser) = Inr ''img-1700000000000-k3j9x2m1q''"
    by (simp add: storage_defs fresh_browser_def show_nat.simps Let_def)
  have c: "clock fresh_browser (Suc (clock_reads fresh_browser)) = 1700000000001"
    by (simp add: fresh_browser_def)
  obtain i' s1 url s2 where sv: "saveImage png fresh_browser = (Inr i', s1)"
    and rc: "map_of (images s1) i'
         = Some \<lparr>img_id = i', img_blob = png,
                 createdAt = clock fresh_browser (Suc (clock_reads fresh_browser))\<rparr>"
    and ld: "loadImage (JStr i') s1 = (Some url, s2)"
    and reg: "map_of (objectURLs s2) url = Some png"
    using saveImage_record_and_roundtrip [OF nf, of png] by blast
  from sv i have "i' = ''img-1700000000000-k3j9x2m1q''"
    by simp
  with sv ld reg rc c have "map_of (images (snd (saveImage png fresh_browser)))
        ''img-1700000000000-k3j9x2m1q''
     = Some \<lparr>img_id = ''img-1700000000000-k3j9x2m1q'', img_blob = png,
             createdAt = 1700000000001\<rparr>"
    "loadImage (JStr ''img-1700000000000-k3j9x2m1q'')
      (snd (saveImage png fresh_browser)) = (Some url, s2) \<and> map_of (objectURLs s2) url = Some png"
    by simp_all
  with nf i show ?thesis
    by blast
qed

section \<open>The resolution pass\<close>

text \<open>
  Claim C2: on a document whose image nodes are leaves, in a browser where no database
  request fails, \<^verbatim>\<open>resolveImageUrls\<close> returns a tree of the same shape in which (1) every
  image node with a non-empty string \<^verbatim>\<open>imageId\<close> whose blob is stored has its \<^verbatim>\<open>attrs.src\<close>
  set to an object URL that \<^verbatim>\<open>loadImage\<close> returned for its identifier and that is registered
  for its blob when the walk ends, the node being otherwise as it was; (2) every other
  node keeps all its properties except \<^verbatim>\<open>content\<close>, and a content array is replaced by an
  array of the same length, whose members are the nodes found there by this same
  statement; a node without a content array is returned as it is. Neither object store
  is changed.
\<close>

theorem resolveImageUrls_walk:
  assumes "no_faults s" and "urls_wf s" and "image_leaves d"
  shows "(\<forall>p m. node_at d p = Some m \<and> resolvable (images s) m \<longrightarrow>
            (\<exists>i r url. image_id_of m = Some (JStr i) \<and> map_of (images s) i = Some r
               \<and> (\<exists>t. same_db s t \<and> fst (loadImage (JStr i) t) = Some url)
               \<and> map_of (objectURLs (snd (resolveImageUrls d s))) url = Some (img_blob r)
               \<and> node_at (fst (resolveImageUrls d s)) p =
                   Some (spread_set m ''attrs''
                           (spread_opt (get_prop m ''attrs'') ''src'' (JStr url)))))
     \<and> (\<forall>p m. node_at d p = Some m \<and> \<not> resolvable (images s) m \<longrightarrow>
            (\<exists>m'. node_at (fst (resolveImageUrls d s)) p = Some m'
               \<and> (\<forall>k. k \<noteq> ''content'' \<longrightarrow> get_prop m' k = get_prop m k)
               \<and> (\<forall>cs. get_prop m ''content'' = Some (JArr cs) \<longrightarrow>
                     (\<exists>rs. get_prop m' ''content'' = Some (JArr rs) \<and> length rs = length cs))
               \<and> ((\<forall>cs. get_prop m ''content'' \<noteq> Some (JArr cs)) \<longrightarrow> m' = m)))
     \<and> images (snd (resolveImageUrls d s)) = images s
     \<and> documents (snd (resolveImageUrls d s)) = documents s"
proof (intro conjI allI impI)
  fix p m
  assume a: "node_at d p = Some m \<and> resolvable (images s) m"
  then have "walked (images s) d p"
    using image_leaves_walked [OF assms(3)] by blast
  with a show "\<exists>i r url. image_id_of m = Some (JStr i) \<and> map_of (images s) i = Some r
               \<and> (\<exists>t. same_db s t \<and> fst (loadImage (JStr i) t) = Some url)
               \<and> map_of (objectURLs (snd (resolveImageUrls d s))) url = Some (img_blob r)
               \<and> node_at (fst (resolveImageUrls d s)) p =
                   Some (spread_set m ''attrs''
                           (spread_opt (get_prop m ''attrs'') ''src'' (JStr url)))"
    using resolve_at_path_final [OF assms(1,2)] by blast
next
  fix p m
  assume a: "node_at d p = Some m \<and> \<not> resolvable (images s) m"
  then have "walked (images s) d p"
    using image_leaves_walked [OF assms(3)] by blast
  with a show "\<exists>m'. node_at (fst (resolveImageUrls d s)) p = Some m'
               \<and> (\<forall>k. k \<noteq> ''content'' \<longrightarrow> get_prop m' k = get_prop m k)
               \<and> (\<forall>cs. get_prop m ''content'' = Some (JArr cs) \<longrightarrow>
                     (\<exists>rs. get_prop m' ''content'' = Some (JArr rs) \<and> length rs = length cs))
               \<and> ((\<forall>cs. get_prop m ''content'' \<noteq> Some (JArr cs)) \<longrightarrow> m' = m)"
    using resolve_at_path_other by blast
next
  show "images (snd (resolveImageUrls d s)) = images s"
    "documents (snd (resolveImageUrls d s)) = documents s"
    using resolve_same_db(1) [of s d] by (simp_all add: same_db_def)
qed

theorem resolveImageUrls_walk_witness:
  "no_faults image_browser \<and> urls_wf image_browser \<and> image_leaves image_doc \<and>
   node_at image_doc [1] = Some (image_node ''img-a'') \<and>
   resolvable (images image_browser) (image_node ''img-a'') \<and>
   (\<exists>url. map_of (objectURLs (snd (resolveImageUrls image_doc image_browser))) url = Some png \<and>
      node_at (fst (resolveImageUrls image_doc image_browser)) [1] =
        Some (JObj [(''type'', JStr ''image''),
                    (''attrs'', JObj [(''imageId'', JStr ''img-a''), (''src'', JStr url)])])) \<and>
   node_at image_doc [0] = Some (JObj [(''type'', JStr ''paragraph'')]) \<and>
   \<not> resolvable (images image_browser) (JObj [(''type'', JStr ''paragraph'')]) \<and>
   node_at (fst (resolveImageUrls image_doc image_browser)) [0]
     = Some (JObj [(''type'', JStr ''paragraph'')])"
proof -
  have nf: "no_faults image_browser"
    by (simp add: no_faults_def image_browser_def fresh_browser_def)
  have wf: "urls_wf image_browser"
    by (simp add: urls_wf_def image_browser_def fresh_browser_def)
  have il: "image_leaves image_doc"
    by (simp add: image_leaves_def image_doc_def image_node_def nodes_of.simps)
  have at: "node_at image_doc [1] = Some (image_node ''img-a'')"
    by (simp add: walk_eval)
  have r: "resolvable (images image_browser) (image_node ''img-a'')"
    by (simp add: walk_eval)
  have b: "map_of (images image_browser) ''img-a''
      = Some \<lparr>img_id = ''img-a'', img_blob = png, createdAt = 5\<rparr>"
    by (simp add: image_browser_def fresh_browser_def)
  have at0: "node_at image_doc [0] = Some (JObj [(''type'', JStr ''paragraph'')])"
    by (simp add: walk_eval)
  have nr: "\<not> resolvable (images image_browser) (JObj [(''type'', JStr ''paragraph'')])"
    by (simp add: resolvable_def)
  have leaf: "\<forall>cs. get_prop (JObj [(''type'', JStr ''paragraph'')]) ''content'' \<noteq> Some (JArr cs)"
    by simp
  note th = resolveImageUrls_walk [OF nf wf il]
  note th1 = th [THEN conjunct1, THEN spec, THEN spec, THEN mp, OF conjI [OF at r]]
  note th2 = th [THEN conjunct2, THEN conjunct1, THEN spec, THEN spec, THEN mp, OF conjI [OF at0 nr]]
  from th1 obtain i rr url where
    u: "image_id_of (image_node ''img-a'') = Some (JStr i)"
      "map_of (images image_browser) i = Some rr"
      "map_of (objectURLs (snd (resolveImageUrls image_doc image_browser))) url = Some (img_blob rr)"
      "node_at (fst (resolveImageUrls image_doc image_browser)) [1] =
         Some (spread_set (image_node ''img-a'') ''attrs''
                 (spread_opt (get_prop (image_node ''img-a'') ''attrs'') ''src'' (JStr url)))"
    by blast
  from u(1) have "i = ''img-a''"
    by (simp add: image_node_def image_id_of_def opt_chain_def)
  with u(2) b have "img_blob rr = png" by auto
  with u(3,4) have a: "\<exists>url. map_of (objectURLs (snd (resolveImageUrls image_doc image_browser))) url
        = Some png \<and>
      node_at (fst (resolveImageUrls image_doc image_browser)) [1] =
        Some (JObj [(''type'', JStr ''image''),
                    (''attrs'', JObj [(''imageId'', JStr ''img-a''), (''src'', JStr url)])])"
    by (auto simp add: image_node_def spread_opt_def)
  from th2 leaf
  have c: "node_at (fst (resolveImageUrls image_doc image_browser)) [0]
      = Some (JObj [(''type'', JStr ''paragraph'')])"
    by auto
  show ?thesis
    by (intro conjI) (rule nf wf il at r a at0 nr c)+
qed

section \<open>Missing blobs\<close>

text \<open>
  Claim C8: for an image node, a leaf as in every document of the editor, whose \<^verbatim>\<open>imageId\<close>
  names no stored blob, \<^verbatim>\<open>loadImage\<close> returns null and \<^verbatim>\<open>resolveImageUrls\<close> returns the node
  unchanged, on its own and at its place in a document. Neither object store is
  modified, no error is raised, and nothing is logged when no request fails.
\<close>

theorem missing_blob_node:
  assumes "get_prop n ''type'' = Some (JStr ''image'')"
    and "image_id_of n = Some (JStr i)"
    and "map_of (images s) i = None"
    and "\<forall>cs. get_prop n ''content'' \<noteq> Some (JArr cs)"
  shows "fst (loadImage (JStr i) s) = None
     \<and> fst (resolveImageUrls n s) = n
     \<and> (\<forall>d p. image_leaves d \<and> node_at d p = Some n \<longrightarrow>
           node_at (fst (resolveImageUrls d s)) p = Some n)
     \<and> images (snd (resolveImageUrls n s)) = images s
     \<and> documents (snd (resolveImageUrls n s)) = documents s
     \<and> (\<forall>d. images (snd (resolveImageUrls d s)) = images s
            \<and> documents (snd (resolveImageUrls d s)) = documents s)
     \<and> (no_faults s \<longrightarrow> console (snd (resolveImageUrls n s)) = console s)"
proof -
  have nr: "\<not> resolvable (images s) n"
    using assms(2,3) by (simp add: resolvable_def)
  have same: "fst (resolveImageUrls n s) = n"
    using nr assms(4) by (rule resolve_leaf)
  have indoc: "node_at (fst (resolveImageUrls d s)) p = Some n"
    if "image_leaves d \<and> node_at d p = Some n" for d p
  proof -
    from that have w: "walked (images s) d p"
      using image_leaves_walked by blast
    from that have at: "node_at d p = Some n" by simp
    from resolve_at_path_other [OF w at nr] assms(4) show ?thesis
      by auto
  qed
  have db: "images (snd (resolveImageUrls d s)) = images s
      \<and> documents (snd (resolveImageUrls d s)) = documents s" for d
    using resolve_same_db(1) [of s d] by (simp add: same_db_def)
  have t: "truthy n"
    using assms(1) by (rule get_prop_truthy)
  have quiet: "console (snd (resolveImageUrls n s)) = console s" if "no_faults s"
  proof (cases "i = []")
    case True
    with assms(1,2,4) t show ?thesis
      by (auto simp add: resolveImageUrls.simps resolve_image_node_def
            split: option.splits json.splits)
  next
    case False
    have "fst (loadImage (JStr i) s) = None"
      using assms(3) by (rule loadImage_missing)
    moreover obtain a b where ab: "loadImage (JStr i) s = (a, b)" by force
    moreover from this have "console b = console s"
      using loadImage_quiet [OF that, of i] by simp
    ultimately show ?thesis
      using False assms(1,2,4) t
      by (auto simp add: resolveImageUrls.simps resolve_image_node_def
            split: option.splits json.splits)
  qed
  from same indoc db quiet show ?thesis
    by (simp add: loadImage_missing [OF assms(3)])
qed

theorem missing_blob_node_witness:
  "get_prop (image_node ''img-gone'') ''type'' = Some (JStr ''image'') \<and>
   image_id_of (image_node ''img-gone'') = Some (JStr ''img-gone'') \<and>
   map_of (images image_browser) ''img-gone'' = None \<and>
   fst (loadImage (JStr ''img-gone'') image_browser) = None \<and>
   fst (resolveImageUrls (image_node ''img-gone'') image_browser) = image_node ''img-gone'' \<and>
   image_leaves orphan_doc \<and> node_at orphan_doc [0] = Some (image_node ''img-gone'') \<and>
   node_at (fst (resolveImageUrls orphan_doc image_browser)) [0] = Some (image_node ''img-gone'') \<and>
   images (snd (resolveImageUrls orphan_doc image_browser)) = images image_browser \<and>
   no_faults image_browser \<and>
   console (snd (resolveImageUrls (image_node ''img-gone'') image_browser)) = []"
proof -
  have ty: "get_prop (image_node ''img-gone'') ''type'' = Some (JStr ''image'')"
    by (simp add: image_node_def)
  have i: "image_id_of (image_node ''img-gone'') = Some (JStr ''img-gone'')"
    by (simp add: image_node_def image_id_of_def opt_chain_def)
  have m: "map_of (images image_browser) ''img-gone'' = None"
    by (simp add: image_browser_def fresh_browser_def)
  have leaf: "\<forall>cs. get_prop (image_node ''img-gone'') ''content'' \<noteq> Some (JArr cs)"
    by (simp add: image_node_def)
  have nf: "no_faults image_browser" and c: "console image_browser = []"
    by (simp_all add: no_faults_def image_browser_def fresh_browser_def)
  have il: "image_leaves orphan_doc"
    by (simp add: image_leaves_def orphan_doc_def image_node_def nodes_of.simps)
  have at: "node_at orphan_doc [0] = Some (image_node ''img-gone'')"
    by (simp add: orphan_doc_def)
  note th = missing_blob_node [OF ty i m leaf]
  have g1: "fst (loadImage (JStr ''img-gone'') image_browser) = None"
    using th by (rule conjunct1)
  have g2: "fst (resolveImageUrls (image_node ''img-gone'') image_browser) = image_node ''img-gone''"
    using th [THEN conjunct2] by (rule conjunct1)
  have d: "node_at (fst (resolveImageUrls orphan_doc image_browser)) [0]
      = Some (image_node ''img-gone'')"
    using th [THEN conjunct2, THEN conjunct2, THEN conjunct1, THEN spec, THEN spec, THEN mp,
        OF conjI [OF il at]] .
  have e: "images (snd (resolveImageUrls orphan_doc image_browser)) = images image_browser"
    using th [THEN conjunct2, THEN conjunct2, THEN conjunct2, THEN conjunct2, THEN conjunct2,
        THEN conjunct1, THEN spec, THEN conjunct1] .
  have f: "console (snd (resolveImageUrls (image_node ''img-gone'') image_browser)) = []"
    using th [THEN conjunct2, THEN conjunct2, THEN conjunct2, THEN conjunct2, THEN conjunct2,
        THEN conjunct2, THEN mp, OF nf] c by simp
  show ?thesis
    by (intro conjI) (rule ty i m g1 g2 il at d e nf f)+
qed

section \<open>Image references in the document\<close>

text \<open>
  Claim C7, as stated, at a document with an image node made by \<^verbatim>\<open>setImage\<close> from a base64
  source, which the extension is configured to allow: \<^verbatim>\<open>saveDocument\<close> persists it as it
  is, \<^verbatim>\<open>loadDocument\<close> returns it, and its image node has no identifier and carries the
  image data in \<^verbatim>\<open>src\<close>.
\<close>

theorem inline_image_counterexample:
  "allowBase64 CustomImage_config \<and>
   fst (saveDocument inline_doc fresh_browser) = Inr () \<and>
   fst (loadDocument (snd (saveDocument inline_doc fresh_browser))) = inline_doc \<and>
   \<not> images_by_id_only inline_doc"
  by (simp add: storage_defs fresh_browser_def inline_doc_def setImage_def option_entry_def
        CustomImage_config_def images_by_id_only_def nodes_of.simps inline_data_def opt_chain_def
        image_id_of_def truthy_opt_def DOCUMENT_ID_def)

text \<open>
  Claim C7, amended: the image node the editor inserts for a pasted image refers to the
  stored image by identifier. Its \<^verbatim>\<open>imageId\<close> is the key under which the images store holds
  the blob of one of the pasted items, rendered as \<^verbatim>\<open>data-image-id\<close> and parsed back from
  it; its \<^verbatim>\<open>src\<close> is an object URL registered for that blob, not the image data.
\<close>

theorem pasted_image_by_id:
  assumes "handlePaste items s = (Some node, s1)"
  shows "\<exists>i u b. node = setImage \<lparr>src = Some u, alt = None, title = None, imageId = Some i\<rparr>
     \<and> (\<exists>its. items = Some its \<and> Some b \<in> getAsFile ` set its)
     \<and> map_option img_blob (map_of (images s1) i) = Some b
     \<and> map_of (objectURLs s1) u = Some b
     \<and> take 5 u = ''blob:''
     \<and> images_by_id_only node
     \<and> opt_chain (get_prop node ''attrs'') ''imageId'' = Some (JStr i)
     \<and> opt_chain (get_prop node ''attrs'') ''src'' = Some (JStr u)
     \<and> imageId_renderHTML (JObj [(''src'', JStr u), (''imageId'', JStr i)]) = [(''data-image-id'', JStr i)]
     \<and> imageId_parseHTML [(''data-image-id'', i)] = JStr i"
proof -
  from assms obtain its i u where its: "items = Some its"
    and h: "handleImagePaste_items its s = (Some (i, u), s1)"
    and n: "node = setImage \<lparr>src = Some u, alt = None, title = None, imageId = Some i\<rparr>"
    by (auto simp add: handlePaste_def handleImagePaste_def split: option.splits prod.splits)
  from handleImagePaste_items_ok [OF h] obtain b where
    ok: "i \<noteq> []" "take 5 u = ''blob:''" "map_option img_blob (map_of (images s1) i) = Some b"
      "map_of (objectURLs s1) u = Some b" "Some b \<in> getAsFile ` set its"
    by blast
  from ok(2) have nd: "take 5 u \<noteq> ''data:''"
    by simp
  have "images_by_id_only node"
    using ok(1) nd
    by (simp add: n setImage_def option_entry_def images_by_id_only_def nodes_of.simps
          inline_data_def opt_chain_def image_id_of_def truthy_opt_def)
  moreover have "opt_chain (get_prop node ''attrs'') ''imageId'' = Some (JStr i)"
    "opt_chain (get_prop node ''attrs'') ''src'' = Some (JStr u)"
    by (simp_all add: n setImage_def option_entry_def opt_chain_def)
  moreover have "imageId_renderHTML (JObj [(''src'', JStr u), (''imageId'', JStr i)])
      = [(''data-image-id'', JStr i)]"
    using ok(1) by (simp add: imageId_renderHTML_def)
  moreover have "imageId_parseHTML [(''data-image-id'', i)] = JStr i"
    by (simp add: imageId_parseHTML_def)
  ultimately show ?thesis
    using n ok its by blast
qed

theorem pasted_image_by_id_witness:
  "handlePaste (Some [png_item]) fresh_browser
     = (Some (setImage \<lparr>src = Some ''blob:0'', alt = None, title = None,
                        imageId = Some ''img-1700000000000-k3j9x2m1q''\<rparr>),
        snd (handlePaste (Some [png_item]) fresh_browser)) \<and>
   images_by_id_only (setImage \<lparr>src = Some ''blob:0'', alt = None, title = None,
                        imageId = Some ''img-1700000000000-k3j9x2m1q''\<rparr>)"
proof -
  have h: "handlePaste (Some [png_item]) fresh_browser
     = (Some (setImage \<lparr>src = Some ''blob:0'', alt = None, title = None,
                        imageId = Some ''img-1700000000000-k3j9x2m1q''\<rparr>),
        snd (handlePaste (Some [png_item]) fresh_browser))"
    by (simp add: handlePaste_def handleImagePaste_def png_item_def png_def storage_defs
          fresh_browser_def show_nat.simps Let_def)
  from pasted_image_by_id [OF h] have "images_by_id_only (setImage \<lparr>src = Some ''blob:0'', alt = None, title = None,
                        imageId = Some ''img-1700000000000-k3j9x2m1q''\<rparr>)"
    by blast
  with h show ?thesis by simp
qed

section \<open>Autosave\<close>

text \<open>
  What \<^verbatim>\<open>triggerAutosave\<close> and \<^verbatim>\<open>clearTimers\<close> do when nothing but time follows an edit:
  after any history of the hook, a call of \<^verbatim>\<open>triggerAutosave\<close> leaves exactly one save
  scheduled, due one full delay after the call; as long as less than the delay has passed
  without another call, \<^verbatim>\<open>onSave\<close> is not called; when the delay has passed, it is called,
  at that moment, and not again however much more time passes; and a call of
  \<^verbatim>\<open>triggerAutosave\<close> before that replaces the pending save by one due a full delay after
  the later call. This is the debounce the hook is written to give.
\<close>

lemma debounce_without_cleanup:
  assumes "0 < delay" and "s = run delay es initial_hook" and "s1 = step delay Edit s"
  shows "pending_saves s1 = [now s + delay]
     \<and> (\<forall>j<delay. onSaveCalls (run delay (replicate j Tick) s1) = onSaveCalls s)
     \<and> (\<forall>j. onSaveCalls (run delay (replicate (delay + j) Tick) s1)
              = (now s + delay) # onSaveCalls s)
     \<and> (\<forall>k<delay. pending_saves (step delay Edit (run delay (replicate k Tick) s1))
                     = [now s + k + delay])"
proof -
  have inv: "timers_referenced s"
    using assms(2) timers_referenced_initial by (simp add: timers_referenced_run)
  have s1: "s1 = triggerAutosave delay s"
    using assms(3) by simp
  have p: "pending s1 (Suc (nextTimer s)) (now s + delay)"
    unfolding s1 using inv by (rule pending_trigger)
  have n1: "now s1 = now s" and c1: "onSaveCalls s1 = onSaveCalls s"
    unfolding s1 using inv by (simp_all add: triggerAutosave_result)
  have a: "pending_saves s1 = [now s + delay]"
    unfolding s1 using inv by (rule pending_saves_trigger)
  have b: "onSaveCalls (run delay (replicate j Tick) s1) = onSaveCalls s" if "j < delay" for j
    using ticks_pending [OF p, of j] that n1 c1 by (simp add: run_ticks)
  from assms(1) obtain d where d: "delay = Suc d"
    by (cases delay) simp_all
  have c: "onSaveCalls (run delay (replicate (delay + j) Tick) s1) = (now s + delay) # onSaveCalls s"
    for j
  proof -
    have f: "timers ((tick ^^ Suc d) s1) = []"
      "onSaveCalls ((tick ^^ Suc d) s1) = (now s + delay) # onSaveCalls s"
      using ticks_fire [OF p, of d] n1 c1 unfolding d by simp_all
    have "(tick ^^ (delay + j)) s1 = (tick ^^ j) ((tick ^^ Suc d) s1)"
      unfolding d by (simp only: add.commute [of "Suc d" j] funpow_add o_apply)
    with ticks_idle [OF f(1), of j] f(2) show ?thesis
      by (simp add: run_ticks)
  qed
  have e: "pending_saves (step delay Edit (run delay (replicate k Tick) s1)) = [now s + k + delay]"
    if "k < delay" for k
  proof -
    have "timers_referenced (run delay (replicate k Tick) s1)"
      unfolding s1 using inv by (intro timers_referenced_run timers_referenced_trigger)
    moreover have "now (run delay (replicate k Tick) s1) = now s + k"
      using ticks_pending [OF p, of k] that n1 by (simp add: run_ticks)
    ultimately show ?thesis
      by (simp add: pending_saves_trigger)
  qed
  from a b c e show ?thesis by blast
qed

lemma run_append: "run delay (es @ fs) s = run delay fs (run delay es s)"
  by (simp add: run_def)

lemma ticks_idle_state:
  "timers s = [] \<Longrightarrow> statusState ((tick ^^ j) s) = statusState s
     \<and> pendingChangesRef ((tick ^^ j) s) = pendingChangesRef s"
proof (induction j)
  case 0
  then show ?case by simp
next
  case (Suc j)
  then have "timers ((tick ^^ j) s) = []"
    using ticks_idle [of s j] by simp
  with Suc show ?case by (simp add: tick_idle)
qed

lemma page_edit_then_ticks:
  assumes "timers_referenced s"
  shows "timers (run delay (page_edit @ replicate j Tick) s) = []
     \<and> onSaveCalls (run delay (page_edit @ replicate j Tick) s) = onSaveCalls s
     \<and> statusState (run delay (page_edit @ replicate j Tick) s)
         = (statusState s)\<lparr>status := Typing, countdown := ceil_seconds delay\<rparr>
     \<and> pendingChangesRef (run delay (page_edit @ replicate j Tick) s)"
proof -
  let ?c = "clearTimers (triggerAutosave delay s)"
  have r: "run delay (page_edit @ replicate j Tick) s = (tick ^^ j) ?c"
    by (simp add: run_append run_ticks page_edit_def run_Cons run_Nil)
  have t: "timers ?c = []"
    using assms by (intro clearTimers_empty timers_referenced_trigger)
  from ticks_idle [OF t, of j] ticks_idle_state [OF t, of j] assms show ?thesis
    unfolding r by (simp add: triggerAutosave_result)
qed

lemma page_edits_never_save:
  "timers s = [] \<Longrightarrow>
   timers (run delay (concat (map (\<lambda>n. page_edit @ replicate n Tick) ns)) s) = []
     \<and> onSaveCalls (run delay (concat (map (\<lambda>n. page_edit @ replicate n Tick) ns)) s)
         = onSaveCalls s"
proof (induction ns arbitrary: s)
  case Nil
  then show ?case by (simp add: run_Nil)
next
  case (Cons n ns)
  let ?s1 = "run delay (page_edit @ replicate n Tick) s"
  from Cons.prems have "timers_referenced s" by (rule timers_referenced_empty)
  from page_edit_then_ticks [OF this, of delay n]
  have a: "timers ?s1 = []" "onSaveCalls ?s1 = onSaveCalls s"
    by simp_all
  from Cons.IH [OF a(1)] a(2) show ?case
    by (simp add: run_append)
qed

text \<open>
  Claim C1 does not hold of the page, by a defect of the code. The claim is what the hook
  is written to do and what the documentation promises (a save five seconds after the
  last edit). But in the page every edit is followed by the effect's cleanup, which
  clears the timers the edit has just set: the edit schedules the save one delay ahead,
  the cleanup leaves nothing scheduled, and then, for every sequence of edits and waiting
  times, \<^verbatim>\<open>onSave\<close> is never called; after an edit the status stays typing with the
  countdown at its first value, and the changes stay pending, however much time passes.
\<close>

theorem page_edit_never_saves:
  "pending_saves (run delay [Edit] initial_hook) = [delay]
   \<and> pending_saves (run delay page_edit initial_hook) = []
   \<and> (\<forall>ns. onSaveCalls
              (run delay (concat (map (\<lambda>n. page_edit @ replicate n Tick) ns)) initial_hook) = [])
   \<and> (\<forall>j. onSaveCalls (run delay (page_edit @ replicate j Tick) initial_hook) = []
          \<and> status (statusState (run delay (page_edit @ replicate j Tick) initial_hook)) = Typing
          \<and> countdown (statusState (run delay (page_edit @ replicate j Tick) initial_hook))
              = ceil_seconds delay
          \<and> pendingChangesRef (run delay (page_edit @ replicate j Tick) initial_hook))"
proof -
  have inv: "timers_referenced initial_hook"
    by (rule timers_referenced_initial)
  have t0: "timers initial_hook = []" and c0: "onSaveCalls initial_hook = []"
    and n0: "now initial_hook = 0"
    by (simp_all add: initial_hook_def)
  have a: "pending_saves (run delay [Edit] initial_hook) = [delay]"
    using pending_saves_trigger [OF inv, of delay] n0 by (simp add: run_Cons run_Nil)
  have "timers (run delay (page_edit @ replicate 0 Tick) initial_hook) = []"
    using page_edit_then_ticks [OF inv, of delay 0] by blast
  then have b: "pending_saves (run delay page_edit initial_hook) = []"
    by (simp add: pending_saves_def)
  have c: "onSaveCalls
      (run delay (concat (map (\<lambda>n. page_edit @ replicate n Tick) ns)) initial_hook) = []" for ns
    using page_edits_never_save [OF t0, of delay ns] c0 by simp
  have d: "onSaveCalls (run delay (page_edit @ replicate j Tick) initial_hook) = []
          \<and> status (statusState (run delay (page_edit @ replicate j Tick) initial_hook)) = Typing
          \<and> countdown (statusState (run delay (page_edit @ replicate j Tick) initial_hook))
              = ceil_seconds delay
          \<and> pendingChangesRef (run delay (page_edit @ replicate j Tick) initial_hook)" for j
    using page_edit_then_ticks [OF inv, of delay j] c0 by simp
  from a b c d show ?thesis by blast
qed

text \<open>
  Claim C4: the status starts as idle; \<^verbatim>\<open>triggerAutosave\<close> makes it typing with the countdown
  \<^verbatim>\<open>Math.ceil(delay / 1000)\<close>, and it stays typing until the scheduled save runs and makes
  it saving; from there the fulfilled promise makes it saved and the rejected one idle.
  Every step of the hook leaves the status as it is or makes one of these moves, and the
  status is always one of the four.
\<close>

theorem autosave_status_machine:
  assumes "0 < delay" and "s = run delay es initial_hook" and "s1 = step delay Edit s"
    and "s2 = run delay (replicate delay Tick) s1"
  shows "status (statusState initial_hook) = Idle
     \<and> status (statusState s1) = Typing \<and> countdown (statusState s1) = ceil_seconds delay
     \<and> (\<forall>j<delay. status (statusState (run delay (replicate j Tick) s1)) = Typing)
     \<and> status (statusState s2) = Saving
     \<and> status (statusState (step delay Fulfilled s2)) = Saved
     \<and> status (statusState (step delay (Rejected e) s2)) = Idle
     \<and> (\<forall>ev u. status (statusState (step delay ev u)) \<in> {Idle, Typing, Saving, Saved})
     \<and> (\<forall>ev u. status (statusState (step delay ev u)) = status (statusState u)
           \<or> ev = Edit \<and> status (statusState (step delay ev u)) = Typing
           \<or> (ev = Tick \<or> ev = CallSave) \<and> status (statusState (step delay ev u)) = Saving
           \<or> ev = Fulfilled \<and> status (statusState (step delay ev u)) = Saved
           \<or> (\<exists>e. ev = Rejected e) \<and> status (statusState (step delay ev u)) = Idle)"
proof -
  have inv: "timers_referenced s"
    using assms(2) timers_referenced_initial by (simp add: timers_referenced_run)
  have s1: "s1 = triggerAutosave delay s"
    using assms(3) by simp
  have p: "pending s1 (Suc (nextTimer s)) (now s + delay)"
    unfolding s1 using inv by (rule pending_trigger)
  have n1: "now s1 = now s" and st1: "status (statusState s1) = Typing"
    and cd1: "countdown (statusState s1) = ceil_seconds delay"
    unfolding s1 using inv by (simp_all add: triggerAutosave_result)
  have ty: "status (statusState (run delay (replicate j Tick) s1)) = Typing" if "j < delay" for j
    using ticks_pending [OF p, of j] that n1 st1 by (simp add: run_ticks)
  from assms(1) obtain d where d: "delay = Suc d"
    by (cases delay) simp_all
  have s2: "status (statusState s2) = Saving \<and> awaiting s2 = Suc (awaiting s1)"
    using ticks_fire [OF p, of d] n1 unfolding assms(4) run_ticks d by simp
  then have f: "status (statusState (step delay Fulfilled s2)) = Saved"
    and r: "status (statusState (step delay (Rejected e) s2)) = Idle"
    by (simp_all add: hook_defs Let_def)
  have all: "status (statusState (step delay ev u)) \<in> {Idle, Typing, Saving, Saved}" for ev u
    by (cases "status (statusState (step delay ev u))") simp_all
  from st1 cd1 ty s2 f r all status_step show ?thesis
    by (simp add: initial_hook_def)
qed

theorem autosave_status_machine_witness:
  "0 < default_delay
   \<and> status (statusState (step default_delay Edit initial_hook)) = Typing
   \<and> countdown (statusState (step default_delay Edit initial_hook)) = 5
   \<and> status (statusState (run default_delay (replicate 4999 Tick)
        (step default_delay Edit initial_hook))) = Typing
   \<and> status (statusState (run default_delay (replicate default_delay Tick)
        (step default_delay Edit initial_hook))) = Saving
   \<and> status (statusState (step default_delay Fulfilled
        (run default_delay (replicate default_delay Tick) (step default_delay Edit initial_hook))))
       = Saved
   \<and> status (statusState (step default_delay (Rejected (Error ''QuotaExceededError''))
        (run default_delay (replicate default_delay Tick) (step default_delay Edit initial_hook))))
       = Idle"
proof -
  have d: "0 < default_delay" by (simp add: default_delay_def)
  have i: "initial_hook = run default_delay [] initial_hook" by (simp add: run_Nil)
  have l: "(4999::nat) < default_delay" by (simp add: default_delay_def)
  have c: "ceil_seconds default_delay = 5" by (simp add: ceil_seconds_def default_delay_def)
  from autosave_status_machine [OF d i refl refl, of "Error ''QuotaExceededError''"] l d c
  show ?thesis by simp
qed

text \<open>
  Claim C5: when \<^verbatim>\<open>onSave\<close> rejects in the scheduled save, the error is logged, the status
  is idle with countdown 0, \<^verbatim>\<open>lastSaved\<close> is what it was, \<^verbatim>\<open>pendingChangesRef\<close> is still true,
  no timer is set and \<^verbatim>\<open>onSave\<close> is not called again however much time passes. In any
  state, the catch block changes the log, the status and the countdown, and nothing else.
\<close>

theorem save_rejection_only_logged:
  assumes "0 < delay" and "s = run delay es initial_hook"
    and "s2 = run delay (replicate delay Tick) (step delay Edit s)"
    and "s3 = step delay (Rejected e) s2"
  shows "errorLog s3 = errorLog s @ [(''Autosave failed:'', e)]
     \<and> status (statusState s3) = Idle \<and> countdown (statusState s3) = 0
     \<and> lastSaved (statusState s3) = lastSaved (statusState s)
     \<and> pendingChangesRef s3
     \<and> timers s3 = [] \<and> onSaveCalls s3 = onSaveCalls s2
     \<and> (\<forall>j. onSaveCalls (run delay (replicate j Tick) s3) = onSaveCalls s2)
     \<and> (\<forall>u. statusState (save_rejected e u) = (statusState u)\<lparr>status := Idle, countdown := 0\<rparr>
            \<and> pendingChangesRef (save_rejected e u) = pendingChangesRef u
            \<and> errorLog (save_rejected e u) = errorLog u @ [(''Autosave failed:'', e)]
            \<and> timers (save_rejected e u) = timers u
            \<and> timeoutRef (save_rejected e u) = timeoutRef u
            \<and> countdownIntervalRef (save_rejected e u) = countdownIntervalRef u
            \<and> onSaveCalls (save_rejected e u) = onSaveCalls u)"
proof -
  have inv: "timers_referenced s"
    using assms(2) timers_referenced_initial by (simp add: timers_referenced_run)
  let ?s1 = "triggerAutosave delay s"
  have p: "pending ?s1 (Suc (nextTimer s)) (now s + delay)"
    using inv by (rule pending_trigger)
  from assms(1) obtain d where d: "delay = Suc d"
    by (cases delay) simp_all
  have s2: "timers s2 = []" "pendingChangesRef s2" "awaiting s2 = Suc (awaiting s)"
    "errorLog s2 = errorLog s" "lastSaved (statusState s2) = lastSaved (statusState s)"
    using ticks_fire [OF p, of d] inv unfolding assms(3) step.simps run_ticks d
    by (simp_all add: triggerAutosave_result)
  have s3: "s3 = save_rejected e (s2\<lparr>awaiting := awaiting s2 - 1\<rparr>)"
    using assms(4) s2(3) by simp
  have t3: "timers s3 = []"
    using s2(1) by (simp add: s3 hook_defs Let_def)
  have c3: "onSaveCalls s3 = onSaveCalls s2"
    by (simp add: s3 hook_defs Let_def)
  have "onSaveCalls (run delay (replicate j Tick) s3) = onSaveCalls s2" for j
    using ticks_idle [OF t3, of j] c3 by (simp add: run_ticks)
  moreover have "statusState (save_rejected e u) = (statusState u)\<lparr>status := Idle, countdown := 0\<rparr>
            \<and> pendingChangesRef (save_rejected e u) = pendingChangesRef u
            \<and> errorLog (save_rejected e u) = errorLog u @ [(''Autosave failed:'', e)]
            \<and> timers (save_rejected e u) = timers u
            \<and> timeoutRef (save_rejected e u) = timeoutRef u
            \<and> countdownIntervalRef (save_rejected e u) = countdownIntervalRef u
            \<and> onSaveCalls (save_rejected e u) = onSaveCalls u" for u
    by (simp add: hook_defs Let_def)
  ultimately show ?thesis
    using s2 t3 c3 by (simp add: s3 hook_defs Let_def)
qed

theorem save_rejection_only_logged_witness:
  "0 < default_delay
   \<and> errorLog (step default_delay (Rejected (Error ''QuotaExceededError''))
        (run default_delay (replicate default_delay Tick) (step default_delay Edit initial_hook)))
       = [(''Autosave failed:'', Error ''QuotaExceededError'')]
   \<and> pendingChangesRef (step default_delay (Rejected (Error ''QuotaExceededError''))
        (run default_delay (replicate default_delay Tick) (step default_delay Edit initial_hook)))
   \<and> onSaveCalls (run default_delay (replicate 60000 Tick)
        (step default_delay (Rejected (Error ''QuotaExceededError''))
          (run default_delay (replicate default_delay Tick) (step default_delay Edit initial_hook))))
       = onSaveCalls
          (run default_delay (replicate default_delay Tick) (step default_delay Edit initial_hook))"
proof -
  have d: "0 < default_delay" by (simp add: default_delay_def)
  have i: "initial_hook = run default_delay [] initial_hook" by (simp add: run_Nil)
  have n: "errorLog initial_hook = []" by (simp add: initial_hook_def)
  from save_rejection_only_logged [OF d i refl refl, of "Error ''QuotaExceededError''"] n d
  show ?thesis by simp
qed

end
